theory Spec2Isabelle
  imports Main
begin

section \<open>The task engine of \<^verbatim>\<open>src/src/taskManager.js\<close>\<close>

text \<open>
  The class \<^verbatim>\<open>TaskManager\<close> keeps its tasks in the array \<^verbatim>\<open>this.tasks\<close> and its recurring
  schedules under the storage key \<^verbatim>\<open>study-hall-recurring-tasks\<close>. Every method is modelled
  as a function that takes the state and returns the state it leaves behind, together
  with the value it returns or the error it throws (\<open>Inl\<close>).

  Conventions of the embedding:
  \<^item> numbers are doubles; the ids of a store are the integers among them, and the one
    sum that the class computes on ids is rounded as the double sum is;
  \<^item> time stamps (\<^verbatim>\<open>new Date()\<close>, ISO date strings) are time values, integers that count
    the milliseconds since the epoch; an absent or empty date is \<open>None\<close>; a stored time
    stamp and a reading of the clock lie in the range of \<^verbatim>\<open>Date\<close>;
  \<^item> the clock, the signed-in user, the offsets of the local time zone and the calendar
    arithmetic of months and years are read from an environment record, one per call;
  \<^item> writes to the browser storage succeed; the notification log, the console and the
    \<^verbatim>\<open>tasksUpdated\<close> event are write-only sinks and are left out;
  \<^item> the descriptive fields \<^verbatim>\<open>department\<close>, \<^verbatim>\<open>tags\<close>, \<^verbatim>\<open>attachments\<close>, \<^verbatim>\<open>category\<close>,
    \<^verbatim>\<open>location\<close> and \<^verbatim>\<open>notifications\<close> are left out of the task record; hours are integers.
\<close>

subsection \<open>Data\<close>

datatype priority = LOW | MEDIUM | HIGH | CRITICAL

datatype status = PENDING | IN_PROGRESS | ON_HOLD | COMPLETED | CANCELLED | OVERDUE

datatype recurringType = DAILY | WEEKLY | MONTHLY | QUARTERLY | YEARLY | CUSTOM

text \<open>
  \<open>NotFound\<close>: \<^verbatim>\<open>Error("Task not found")\<close>, \<^verbatim>\<open>Error("One or both tasks not found")\<close>;
  \<open>DependencyCycle\<close>: \<^verbatim>\<open>Error("Adding this dependency would create a circular reference")\<close>;
  \<open>TypeError\<close>: the call of a method that the class does not define;
  \<open>RangeError\<close>: \<^verbatim>\<open>toISOString\<close> of an invalid date.
\<close>

datatype error = NotFound | DependencyCycle | TypeError | RangeError

record task =
  id_task :: int
  title :: string
  description :: string
  priority :: priority
  status :: status
  assignedTo :: "string list"
  assignedBy :: string
  createdAt :: int
  updatedAt :: int
  dueDate :: "int option"
  startDate :: "int option"
  completedAt :: "int option"
  progress :: int
  estimatedHours :: "int option"
  actualHours :: int
  dependencies :: "int list"
  dependents :: "int list"
  isRecurring :: bool
  recurringType :: "recurringType option"
  recurringInterval :: int
  recurringEndDate :: "int option"
  parentRecurringId :: "int option"

text \<open>The argument of \<^verbatim>\<open>createTask\<close>; \<open>None\<close> is a field the caller left undefined.\<close>

record taskData =
  d_title :: string
  d_description :: "string option"
  d_priority :: "priority option"
  d_status :: "status option"
  d_assignedTo :: "string list"
  d_dueDate :: "int option"
  d_startDate :: "int option"
  d_estimatedHours :: "int option"
  d_dependencies :: "int list"
  d_isRecurring :: bool
  d_recurringType :: "recurringType option"
  d_recurringInterval :: "int option"
  d_recurringEndDate :: "int option"
  d_parentRecurringId :: "int option"

text \<open>
  The partial object of \<^verbatim>\<open>updateTask\<close>: the fields that the callers in the class and the
  specification pass; \<open>None\<close> is a key that is not present.
\<close>

record updates =
  u_title :: "string option"
  u_description :: "string option"
  u_priority :: "priority option"
  u_status :: "status option"
  u_assignedTo :: "string list option"
  u_assignedBy :: "string option"
  u_dueDate :: "int option"
  u_progress :: "int option"
  u_actualHours :: "int option"
  u_completedAt :: "int option"
  u_dependencies :: "int list option"

record schedule =
  id_schedule :: int
  parentTaskId :: int
  type_schedule :: "recurringType option"
  interval :: int
  nextDue :: int
  endDate :: "int option"
  isActive :: bool
  createdInstances :: "int list"
  template :: task

text \<open>
  \<open>utcOffset e t\<close> is the offset of the local zone in force at the time value \<open>t\<close>,
  \<open>localOffset e t\<close> the offset in force at the local time \<open>t\<close>, both in milliseconds.
\<close>

record env =
  now :: int
  currentUser :: "string option"
  localeDate :: "int \<Rightarrow> string"
  utcOffset :: "int \<Rightarrow> int"
  localOffset :: "int \<Rightarrow> int"
  addMonths :: "int \<Rightarrow> int \<Rightarrow> int"
  addYears :: "int \<Rightarrow> int \<Rightarrow> int"

record state =
  tasks :: "task list"
  recurringTasks :: "schedule list"

subsection \<open>Lookups\<close>

text \<open>\<^verbatim>\<open>getTask\<close>: \<^verbatim>\<open>this.tasks.find((t) => t.id === taskId)\<close>, the first task with the id.\<close>

definition getTask :: "task list \<Rightarrow> int \<Rightarrow> task option" where
  "getTask ts taskId = List.find (\<lambda>t. id_task t = taskId) ts"

text \<open>\<^verbatim>\<open>Array.prototype.findIndex\<close>; \<open>None\<close> is the result -1.\<close>

fun findIndex :: "('a \<Rightarrow> bool) \<Rightarrow> 'a list \<Rightarrow> nat option" where
  "findIndex P [] = None"
| "findIndex P (x # xs) =
     (if P x then Some 0 else (case findIndex P xs of None \<Rightarrow> None | Some i \<Rightarrow> Some (Suc i)))"

text \<open>
  An assignment to a field of the object that \<^verbatim>\<open>getTask\<close> returned: the first task with
  the id is changed in place, nothing happens when there is none.
\<close>

fun mutateTask :: "int \<Rightarrow> (task \<Rightarrow> task) \<Rightarrow> task list \<Rightarrow> task list" where
  "mutateTask taskId f [] = []"
| "mutateTask taskId f (t # ts) =
     (if id_task t = taskId then f t # ts else t # mutateTask taskId f ts)"

text \<open>
  The sum of two doubles is the exact sum rounded to the nearest double, ties to the even
  significand. \<open>ulp n\<close> is the distance between neighbouring doubles at the integer
  \<open>n\<close>: 1 below \<open>2 ^ 53\<close>, and twice as much with every further binary digit;
  \<open>roundDouble n\<close> is the double nearest to a natural number \<open>n\<close>. It is applied to
  \<^verbatim>\<open>maxId + 1\<close>, which is positive and stays below the greatest double.
\<close>

function ulp :: "int \<Rightarrow> int" where
  "ulp n = (if n < 2 ^ 53 then 1 else 2 * ulp (n div 2))"
  by pat_completeness auto
termination
  by (relation "measure nat") auto

declare ulp.simps [simp del]

definition roundDouble :: "int \<Rightarrow> int" where
  "roundDouble n =
     (let u = ulp n; q = n div u; r = n mod u
      in if 2 * r < u \<or> (2 * r = u \<and> even q) then q * u else (q + 1) * u)"

text \<open>
  \<^verbatim>\<open>getNextTaskId\<close>: the fold \<^verbatim>\<open>reduce((max, task) => Math.max(max, task.id || 0), 0)\<close>,
  then \<^verbatim>\<open>maxId + 1\<close>.
\<close>

definition getNextTaskId :: "task list \<Rightarrow> int" where
  "getNextTaskId ts = roundDouble (foldl (\<lambda>m t. max m (id_task t)) 0 ts + 1)"

subsection \<open>Saving and the overdue sweep\<close>

text \<open>\<^verbatim>\<open>updateTaskStatuses\<close>: every task past its due date that is not completed, cancelled
  or overdue already becomes overdue.\<close>

definition markOverdue :: "int \<Rightarrow> task \<Rightarrow> task" where
  "markOverdue n t =
     (case dueDate t of
        None \<Rightarrow> t
      | Some d \<Rightarrow>
          if d < n \<and> status t \<noteq> COMPLETED \<and> status t \<noteq> CANCELLED \<and> status t \<noteq> OVERDUE
          then t\<lparr>status := OVERDUE\<rparr> else t)"

definition updateTaskStatuses :: "int \<Rightarrow> task list \<Rightarrow> task list" where
  "updateTaskStatuses n ts = map (markOverdue n) ts"

text \<open>\<^verbatim>\<open>saveTasks\<close>: the write to the storage, then the sweep.\<close>

definition saveTasks :: "env \<Rightarrow> state \<Rightarrow> state" where
  "saveTasks e s = s\<lparr>tasks := updateTaskStatuses (now e) (tasks s)\<rparr>"

subsection \<open>The dependency graph\<close>

text \<open>
  \<^verbatim>\<open>wouldCreateCircularDependency(taskId, dependsOnId, visited)\<close>: a depth-first walk along
  the dependencies of \<open>dependsOnId\<close>; every branch of \<^verbatim>\<open>some\<close> gets its own copy of the
  visited set, which is kept here as the list of the nodes on the current path.
\<close>

function wouldCreateCircularDependency :: "task list \<Rightarrow> int \<Rightarrow> int \<Rightarrow> int list \<Rightarrow> bool" where
  "wouldCreateCircularDependency ts taskId dependsOnId visited =
     (if dependsOnId \<in> set visited then True
      else if dependsOnId = taskId then True
      else (case getTask ts dependsOnId of
              None \<Rightarrow> False
            | Some dependencyTask \<Rightarrow>
                list_ex (\<lambda>depId. wouldCreateCircularDependency ts taskId depId (dependsOnId # visited))
                  (dependencies dependencyTask)))"
  by pat_completeness auto
termination
proof (relation "measure (\<lambda>(ts, taskId, dependsOnId, visited). card (id_task ` set ts - set visited))")
  show "wf (measure (\<lambda>(ts, taskId, dependsOnId, visited). card (id_task ` set ts - set visited)))"
    by simp
next
  fix ts :: "task list" and taskId dependsOnId :: int and visited :: "int list"
    and x2 :: task and z :: int
  assume nv: "dependsOnId \<notin> set visited" and g: "getTask ts dependsOnId = Some x2"
  from g have "dependsOnId \<in> id_task ` set ts"
    by (auto simp: getTask_def find_Some_iff)
  with nv have "id_task ` set ts - set (dependsOnId # visited) \<subset> id_task ` set ts - set visited"
    by auto
  then have "card (id_task ` set ts - set (dependsOnId # visited)) < card (id_task ` set ts - set visited)"
    by (intro psubset_card_mono) auto
  then show "((ts, taskId, z, dependsOnId # visited), (ts, taskId, dependsOnId, visited))
       \<in> measure (\<lambda>(ts, taskId, dependsOnId, visited). card (id_task ` set ts - set visited))"
    by simp
qed

declare wouldCreateCircularDependency.simps [simp del]

text \<open>\<^verbatim>\<open>canStartTask\<close>: false for an unknown id, else every dependency is a completed task.\<close>

definition canStartTask :: "task list \<Rightarrow> int \<Rightarrow> bool" where
  "canStartTask ts taskId =
     (case getTask ts taskId of
        None \<Rightarrow> False
      | Some task \<Rightarrow>
          list_all (\<lambda>depId. case getTask ts depId of
                              None \<Rightarrow> False
                            | Some depTask \<Rightarrow> status depTask = COMPLETED)
            (dependencies task))"

text \<open>
  The four edits of a single task: \<^verbatim>\<open>if (!xs.includes(id)) xs.push(id)\<close> on either list,
  and \<^verbatim>\<open>xs = xs.filter((id) => id !== x)\<close> on either list.
\<close>

definition pushDependency :: "int \<Rightarrow> task \<Rightarrow> task" where
  "pushDependency dependsOnId t =
     (if dependsOnId \<in> set (dependencies t) then t
      else t\<lparr>dependencies := dependencies t @ [dependsOnId]\<rparr>)"

definition pushDependent :: "int \<Rightarrow> task \<Rightarrow> task" where
  "pushDependent taskId t =
     (if taskId \<in> set (dependents t) then t
      else t\<lparr>dependents := dependents t @ [taskId]\<rparr>)"

definition dropDependency :: "int \<Rightarrow> task \<Rightarrow> task" where
  "dropDependency dependsOnId t =
     t\<lparr>dependencies := filter (\<lambda>i. i \<noteq> dependsOnId) (dependencies t)\<rparr>"

definition dropDependent :: "int \<Rightarrow> task \<Rightarrow> task" where
  "dropDependent taskId t = t\<lparr>dependents := filter (\<lambda>i. i \<noteq> taskId) (dependents t)\<rparr>"

text \<open>\<^verbatim>\<open>addTaskDependency\<close>: both lookups, the cycle check, then the two pushes and the save.\<close>

definition addTaskDependency :: "env \<Rightarrow> int \<Rightarrow> int \<Rightarrow> state \<Rightarrow> (error + bool) \<times> state" where
  "addTaskDependency e taskId dependsOnId s =
     (case getTask (tasks s) taskId of
        None \<Rightarrow> (Inl NotFound, s)
      | Some task \<Rightarrow>
         (case getTask (tasks s) dependsOnId of
            None \<Rightarrow> (Inl NotFound, s)
          | Some dependencyTask \<Rightarrow>
              if wouldCreateCircularDependency (tasks s) taskId dependsOnId []
              then (Inl DependencyCycle, s)
              else (Inr True,
                saveTasks e (s\<lparr>tasks :=
                  mutateTask dependsOnId (pushDependent taskId)
                    (mutateTask taskId (pushDependency dependsOnId) (tasks s))\<rparr>))))"

text \<open>\<^verbatim>\<open>removeTaskDependency\<close>: never throws and always returns true; the state is the result.\<close>

definition removeTaskDependency :: "env \<Rightarrow> int \<Rightarrow> int \<Rightarrow> state \<Rightarrow> state" where
  "removeTaskDependency e taskId dependsOnId s =
     saveTasks e (s\<lparr>tasks :=
       mutateTask dependsOnId (dropDependent taskId)
         (mutateTask taskId (dropDependency dependsOnId) (tasks s))\<rparr>)"

text \<open>The two \<^verbatim>\<open>forEach\<close> passes of \<^verbatim>\<open>updateTaskDependencies\<close>; the second one stops at the first throw.\<close>

fun addNewDependencies :: "env \<Rightarrow> int \<Rightarrow> int list \<Rightarrow> state \<Rightarrow> (error + unit) \<times> state" where
  "addNewDependencies e taskId [] s = (Inr (), s)"
| "addNewDependencies e taskId (depId # rest) s =
     (case addTaskDependency e taskId depId s of
        (Inl err, s') \<Rightarrow> (Inl err, s')
      | (Inr _, s') \<Rightarrow> addNewDependencies e taskId rest s')"

definition removeOldDependencies :: "env \<Rightarrow> int \<Rightarrow> int list \<Rightarrow> state \<Rightarrow> state" where
  "removeOldDependencies e taskId old s =
     fold (\<lambda>depId s'. removeTaskDependency e taskId depId s') old s"

definition updateTaskDependencies :: "env \<Rightarrow> int \<Rightarrow> int list \<Rightarrow> state \<Rightarrow> (error + unit) \<times> state" where
  "updateTaskDependencies e taskId newDependencies s =
     (case getTask (tasks s) taskId of
        None \<Rightarrow> (Inr (), s)
      | Some task \<Rightarrow>
          addNewDependencies e taskId newDependencies
            (removeOldDependencies e taskId (dependencies task) s))"

text \<open>\<^verbatim>\<open>removeDependencies\<close>: the id is filtered out of both lists of every task.\<close>

definition removeDependencies :: "int \<Rightarrow> task list \<Rightarrow> task list" where
  "removeDependencies taskId ts = map (\<lambda>t. dropDependent taskId (dropDependency taskId t)) ts"

subsection \<open>Queries\<close>

text \<open>\<^verbatim>\<open>getOverdueTasks\<close>, with the clock as an argument.\<close>

definition getOverdueTasks :: "int \<Rightarrow> task list \<Rightarrow> task list" where
  "getOverdueTasks n ts =
     filter (\<lambda>t. case dueDate t of
                   None \<Rightarrow> False
                 | Some d \<Rightarrow> if status t = COMPLETED then False else d < n) ts"

subsection \<open>Recurrence\<close>

text \<open>
  A \<^verbatim>\<open>Date\<close> holds a time value of magnitude at most 8640000000000000, or \<open>NaN\<close>, which
  is \<open>None\<close> here; \<open>timeClip\<close> decides which.
\<close>

definition timeClip :: "int \<Rightarrow> int option" where
  "timeClip t = (if \<bar>t\<bar> \<le> 8640000000000000 then Some t else None)"

text \<open>
  \<^verbatim>\<open>date.setDate(date.getDate() + k)\<close>: the step is taken on the local calendar. The
  time value is moved to local time, \<open>k\<close> days of 86400000 ms are added to it, and the
  result is moved back with the offset that is in force at the new local time. A result
  outside the range of \<^verbatim>\<open>Date\<close> is an invalid date; inside that range the doubles
  compute the sum exactly.
\<close>

definition setDateBy :: "env \<Rightarrow> int \<Rightarrow> int \<Rightarrow> int option" where
  "setDateBy e t k =
     (let localTime = t + utcOffset e t;
          newDate = localTime + k * 86400000
      in timeClip (newDate - localOffset e newDate))"

text \<open>\<^verbatim>\<open>toISOString\<close> throws on an invalid date.\<close>

definition toISOString :: "int option \<Rightarrow> error + int" where
  "toISOString date = (case date of None \<Rightarrow> Inl RangeError | Some t \<Rightarrow> Inr t)"

text \<open>
  \<^verbatim>\<open>calculateNextDueDate(task, fromDate)\<close>: \<^verbatim>\<open>setMonth\<close> and \<^verbatim>\<open>setFullYear\<close> are the
  calendar functions of the environment; the \<^verbatim>\<open>switch\<close> has no case for \<open>CUSTOM\<close> or for
  a missing type, which leave the date as it is.
\<close>

definition calculateNextDueDate :: "env \<Rightarrow> task \<Rightarrow> int \<Rightarrow> error + int" where
  "calculateNextDueDate e task fromDate =
     toISOString
       (case timeClip fromDate of
          None \<Rightarrow> None
        | Some date \<Rightarrow>
            (case recurringType task of
               Some DAILY \<Rightarrow> setDateBy e date (recurringInterval task)
             | Some WEEKLY \<Rightarrow> setDateBy e date (7 * recurringInterval task)
             | Some MONTHLY \<Rightarrow> timeClip (addMonths e date (recurringInterval task))
             | Some QUARTERLY \<Rightarrow> timeClip (addMonths e date (3 * recurringInterval task))
             | Some YEARLY \<Rightarrow> timeClip (addYears e date (recurringInterval task))
             | _ \<Rightarrow> Some date))"

text \<open>
  \<^verbatim>\<open>createRecurringTaskSchedule\<close>: the schedule is appended to the stored list; a throw
  of \<^verbatim>\<open>calculateNextDueDate\<close> comes before anything is stored.
\<close>

definition createRecurringTaskSchedule :: "env \<Rightarrow> task \<Rightarrow> state \<Rightarrow> (error + unit) \<times> state" where
  "createRecurringTaskSchedule e parentTask s =
     (case calculateNextDueDate e parentTask (now e) of
        Inl err \<Rightarrow> (Inl err, s)
      | Inr due \<Rightarrow>
          (Inr (), s\<lparr>recurringTasks := recurringTasks s @
             [\<lparr>id_schedule = now e,
               parentTaskId = id_task parentTask,
               type_schedule = recurringType parentTask,
               interval = recurringInterval parentTask,
               nextDue = due,
               endDate = recurringEndDate parentTask,
               isActive = True,
               createdInstances = [],
               template = parentTask\<rparr>]\<rparr>))"

subsection \<open>Creating, updating and deleting tasks\<close>

text \<open>\<^verbatim>\<open>x || null\<close> on a number: 0 is falsy.\<close>

definition orNull :: "int option \<Rightarrow> int option" where
  "orNull x = (case x of None \<Rightarrow> None | Some v \<Rightarrow> if v = 0 then None else Some v)"

text \<open>
  \<^verbatim>\<open>createTask\<close>: the record is pushed and saved first; the dependencies are wired after
  that, and a throw of \<^verbatim>\<open>updateTaskDependencies\<close> or of \<^verbatim>\<open>createRecurringTaskSchedule\<close>
  leaves the method at that point. The object \<^verbatim>\<open>newTask\<close> is the last element of the
  array, read back with \<open>last\<close>.
\<close>

definition newTaskRecord :: "env \<Rightarrow> taskData \<Rightarrow> task list \<Rightarrow> task" where
  "newTaskRecord e taskData ts =
     \<lparr>id_task = getNextTaskId ts,
      title = d_title taskData,
      description = (case d_description taskData of None \<Rightarrow> [] | Some x \<Rightarrow> x),
      priority = (case d_priority taskData of None \<Rightarrow> MEDIUM | Some x \<Rightarrow> x),
      status = (case d_status taskData of None \<Rightarrow> PENDING | Some x \<Rightarrow> x),
      assignedTo = d_assignedTo taskData,
      assignedBy = (case currentUser e of None \<Rightarrow> ''system'' | Some u \<Rightarrow> if u = [] then ''system'' else u),
      createdAt = now e,
      updatedAt = now e,
      dueDate = d_dueDate taskData,
      startDate = d_startDate taskData,
      completedAt = None,
      progress = 0,
      estimatedHours = orNull (d_estimatedHours taskData),
      actualHours = 0,
      dependencies = d_dependencies taskData,
      dependents = [],
      isRecurring = d_isRecurring taskData,
      recurringType = d_recurringType taskData,
      recurringInterval =
        (case d_recurringInterval taskData of None \<Rightarrow> 1 | Some n \<Rightarrow> if n = 0 then 1 else n),
      recurringEndDate = d_recurringEndDate taskData,
      parentRecurringId = orNull (d_parentRecurringId taskData)\<rparr>"

definition createTask :: "env \<Rightarrow> taskData \<Rightarrow> state \<Rightarrow> (error + task) \<times> state" where
  "createTask e taskData s =
     (let newTask = newTaskRecord e taskData (tasks s);
          s1 = saveTasks e (s\<lparr>tasks := tasks s @ [newTask]\<rparr>)
      in case (if dependencies newTask \<noteq> []
               then updateTaskDependencies e (id_task newTask) (dependencies newTask) s1
               else (Inr (), s1)) of
           (Inl err, s2) \<Rightarrow> (Inl err, s2)
         | (Inr _, s2) \<Rightarrow>
             (case (if isRecurring newTask
                    then createRecurringTaskSchedule e (last (tasks s2)) s2
                    else (Inr (), s2)) of
                (Inl err, s3) \<Rightarrow> (Inl err, s3)
              | (Inr _, s3) \<Rightarrow> (Inr (last (tasks s3)), s3)))"

text \<open>\<^verbatim>\<open>{ ...this.tasks[taskIndex], ...updates }\<close>\<close>

definition mergeUpdates :: "task \<Rightarrow> updates \<Rightarrow> task" where
  "mergeUpdates t u =
     t\<lparr>title := (case u_title u of None \<Rightarrow> title t | Some x \<Rightarrow> x),
       description := (case u_description u of None \<Rightarrow> description t | Some x \<Rightarrow> x),
       priority := (case u_priority u of None \<Rightarrow> priority t | Some x \<Rightarrow> x),
       status := (case u_status u of None \<Rightarrow> status t | Some x \<Rightarrow> x),
       assignedTo := (case u_assignedTo u of None \<Rightarrow> assignedTo t | Some x \<Rightarrow> x),
       assignedBy := (case u_assignedBy u of None \<Rightarrow> assignedBy t | Some x \<Rightarrow> x),
       dueDate := (case u_dueDate u of None \<Rightarrow> dueDate t | Some x \<Rightarrow> Some x),
       progress := (case u_progress u of None \<Rightarrow> progress t | Some x \<Rightarrow> x),
       actualHours := (case u_actualHours u of None \<Rightarrow> actualHours t | Some x \<Rightarrow> x),
       completedAt := (case u_completedAt u of None \<Rightarrow> completedAt t | Some x \<Rightarrow> Some x),
       dependencies := (case u_dependencies u of None \<Rightarrow> dependencies t | Some x \<Rightarrow> x)\<rparr>"

text \<open>\<^verbatim>\<open>handleStatusChange\<close>; \<^verbatim>\<open>checkDependentTasks\<close> only writes to the console.\<close>

definition handleStatusChange :: "env \<Rightarrow> task \<Rightarrow> status \<Rightarrow> status \<Rightarrow> task" where
  "handleStatusChange e task oldStatus newStatus =
     (if newStatus = COMPLETED then task\<lparr>completedAt := Some (now e), progress := 100\<rparr> else task)"

text \<open>
  \<^verbatim>\<open>updateTask\<close>: \<open>updatedTask\<close> is built from the record as it is before the dependencies
  are rewired (the merge, the time stamp, the status handler), and replaces the element
  at \<open>taskIndex\<close> after that; the returned object is that element, after the sweep of
  the save.
\<close>

definition buildUpdatedTask :: "env \<Rightarrow> task \<Rightarrow> updates \<Rightarrow> task" where
  "buildUpdatedTask e oldTask upd =
     (let merged = (mergeUpdates oldTask upd)\<lparr>updatedAt := now e\<rparr>
      in case u_status upd of
           None \<Rightarrow> merged
         | Some st \<Rightarrow> if st \<noteq> status oldTask
                     then handleStatusChange e merged (status oldTask) st else merged)"

definition updateTask :: "env \<Rightarrow> int \<Rightarrow> updates \<Rightarrow> state \<Rightarrow> (error + task) \<times> state" where
  "updateTask e taskId upd s =
     (case findIndex (\<lambda>t. id_task t = taskId) (tasks s) of
        None \<Rightarrow> (Inl NotFound, s)
      | Some taskIndex \<Rightarrow>
         (let updatedTask = buildUpdatedTask e (tasks s ! taskIndex) upd
          in case (case u_dependencies upd of
                     None \<Rightarrow> (Inr (), s)
                   | Some deps \<Rightarrow> updateTaskDependencies e taskId deps s) of
               (Inl err, s1) \<Rightarrow> (Inl err, s1)
             | (Inr _, s1) \<Rightarrow>
                 (let s2 = saveTasks e (s1\<lparr>tasks := (tasks s1)[taskIndex := updatedTask]\<rparr>)
                  in (Inr (tasks s2 ! taskIndex), s2))))"

text \<open>
  \<^verbatim>\<open>deleteTask\<close>: for a recurring task the method calls \<^verbatim>\<open>this.cancelRecurringTask(taskId)\<close>.
  The class has no method of that name (this call is the only occurrence of the name in
  the sources), so the call throws a \<open>TypeError\<close>, after \<^verbatim>\<open>removeDependencies\<close> has run
  and before the \<^verbatim>\<open>splice\<close>.
\<close>

definition deleteTask :: "env \<Rightarrow> int \<Rightarrow> state \<Rightarrow> (error + bool) \<times> state" where
  "deleteTask e taskId s =
     (case findIndex (\<lambda>t. id_task t = taskId) (tasks s) of
        None \<Rightarrow> (Inl NotFound, s)
      | Some taskIndex \<Rightarrow>
         (let task = tasks s ! taskIndex;
              s1 = s\<lparr>tasks := removeDependencies taskId (tasks s)\<rparr>
          in if isRecurring task then (Inl TypeError, s1)
             else (Inr True,
                   saveTasks e (s1\<lparr>tasks := take taskIndex (tasks s1) @ drop (Suc taskIndex) (tasks s1)\<rparr>))))"

text \<open>
  \<^verbatim>\<open>updateTaskProgress\<close>: the object \<^verbatim>\<open>updates\<close> that the method builds, then the call of
  \<^verbatim>\<open>updateTask\<close>. The stored value is clamped, the two tests read the argument.
\<close>

definition noUpdates :: updates where
  "noUpdates = \<lparr>u_title = None, u_description = None, u_priority = None, u_status = None,
     u_assignedTo = None, u_assignedBy = None, u_dueDate = None, u_progress = None,
     u_actualHours = None, u_completedAt = None, u_dependencies = None\<rparr>"

definition progressUpdates :: "env \<Rightarrow> task \<Rightarrow> int \<Rightarrow> int option \<Rightarrow> updates" where
  "progressUpdates e task prog hours =
     (let u0 = noUpdates\<lparr>u_progress := Some (max 0 (min 100 prog))\<rparr>;
          u1 = (case hours of None \<Rightarrow> u0 | Some h \<Rightarrow> u0\<lparr>u_actualHours := Some h\<rparr>)
      in if prog = 100 \<and> status task \<noteq> COMPLETED
         then u1\<lparr>u_status := Some COMPLETED, u_completedAt := Some (now e)\<rparr>
         else if prog > 0 \<and> status task = PENDING
         then u1\<lparr>u_status := Some IN_PROGRESS\<rparr>
         else u1)"

definition updateTaskProgress :: "env \<Rightarrow> int \<Rightarrow> int \<Rightarrow> int option \<Rightarrow> state \<Rightarrow> (error + task) \<times> state" where
  "updateTaskProgress e taskId prog hours s =
     (case getTask (tasks s) taskId of
        None \<Rightarrow> (Inl NotFound, s)
      | Some task \<Rightarrow> updateTask e taskId (progressUpdates e task prog hours) s)"

subsection \<open>The scheduler tick\<close>

text \<open>
  \<^verbatim>\<open>createRecurringTaskInstance\<close>: the template is spread into the argument of
  \<^verbatim>\<open>createTask\<close>, with a new title and due date and \<^verbatim>\<open>isRecurring: false\<close>; the schedule
  gets the new id and its next due date, counted from the previous one with the
  recurrence of the template.
\<close>

definition instanceData :: "env \<Rightarrow> schedule \<Rightarrow> taskData" where
  "instanceData e sch =
     (let t = template sch in
      \<lparr>d_title = title t @ '' ('' @ localeDate e (now e) @ '')'',
       d_description = Some (description t),
       d_priority = Some (priority t),
       d_status = Some (status t),
       d_assignedTo = assignedTo t,
       d_dueDate = Some (nextDue sch),
       d_startDate = startDate t,
       d_estimatedHours = estimatedHours t,
       d_dependencies = dependencies t,
       d_isRecurring = False,
       d_recurringType = recurringType t,
       d_recurringInterval = Some (recurringInterval t),
       d_recurringEndDate = recurringEndDate t,
       d_parentRecurringId = Some (id_schedule sch)\<rparr>)"

definition createRecurringTaskInstance :: "env \<Rightarrow> schedule \<Rightarrow> state \<Rightarrow> (error + schedule) \<times> state" where
  "createRecurringTaskInstance e sch s =
     (case createTask e (instanceData e sch) s of
        (Inl err, s') \<Rightarrow> (Inl err, s')
      | (Inr newTask, s') \<Rightarrow>
          (case calculateNextDueDate e (template sch) (nextDue sch) of
             Inl err \<Rightarrow> (Inl err, s')
           | Inr due \<Rightarrow>
               (Inr (sch\<lparr>createdInstances := createdInstances sch @ [id_task newTask],
                         nextDue := due\<rparr>), s')))"

text \<open>
  \<^verbatim>\<open>processRecurringTasks\<close>: the callback of \<^verbatim>\<open>forEach\<close>, then the loop over the loaded
  schedules, which are written back only when the loop ends without a throw.
\<close>

definition processSchedule :: "env \<Rightarrow> schedule \<Rightarrow> state \<Rightarrow> (error + schedule) \<times> state" where
  "processSchedule e sch s =
     (if \<not> isActive sch then (Inr sch, s)
      else if (case endDate sch of None \<Rightarrow> False | Some d \<Rightarrow> d < now e)
      then (Inr (sch\<lparr>isActive := False\<rparr>), s)
      else if nextDue sch \<le> now e then createRecurringTaskInstance e sch s
      else (Inr sch, s))"

fun processSchedules :: "env \<Rightarrow> schedule list \<Rightarrow> state \<Rightarrow> (error + schedule list) \<times> state" where
  "processSchedules e [] s = (Inr [], s)"
| "processSchedules e (sch # rest) s =
     (case processSchedule e sch s of
        (Inl err, s') \<Rightarrow> (Inl err, s')
      | (Inr sch', s') \<Rightarrow>
          (case processSchedules e rest s' of
             (Inl err, s'') \<Rightarrow> (Inl err, s'')
           | (Inr rest', s'') \<Rightarrow> (Inr (sch' # rest'), s'')))"

definition processRecurringTasks :: "env \<Rightarrow> state \<Rightarrow> (error + unit) \<times> state" where
  "processRecurringTasks e s =
     (case processSchedules e (recurringTasks s) s of
        (Inl err, s') \<Rightarrow> (Inl err, s')
      | (Inr schedules, s') \<Rightarrow> (Inr (), s'\<lparr>recurringTasks := schedules\<rparr>))"

subsection \<open>Sequences of operations\<close>

datatype operation =
    CreateTask taskData
  | UpdateTask int updates
  | DeleteTask int
  | AddEdge int int
  | RemoveEdge int int

text \<open>The state that a call leaves behind, whether it returns or throws.\<close>

fun step :: "env \<times> operation \<Rightarrow> state \<Rightarrow> state" where
  "step (e, CreateTask taskData) s = snd (createTask e taskData s)"
| "step (e, UpdateTask taskId upd) s = snd (updateTask e taskId upd s)"
| "step (e, DeleteTask taskId) s = snd (deleteTask e taskId s)"
| "step (e, AddEdge taskId dependsOnId) s = snd (addTaskDependency e taskId dependsOnId s)"
| "step (e, RemoveEdge taskId dependsOnId) s = removeTaskDependency e taskId dependsOnId s"

definition run :: "(env \<times> operation) list \<Rightarrow> state \<Rightarrow> state" where
  "run ops s = fold step ops s"

text \<open>The invariant of the data model: the two lists are inverse to each other.\<close>

definition symmetric :: "task list \<Rightarrow> bool" where
  "symmetric ts =
     (\<forall>a \<in> set ts. \<forall>b \<in> set ts.
        (id_task b \<in> set (dependencies a)) = (id_task a \<in> set (dependents b)))"

text \<open>
  What the overdue sweep and the dependency operations never touch: a task with its
  status and its two edge lists blanked.
\<close>

definition core :: "task \<Rightarrow> task" where
  "core t = t\<lparr>status := PENDING, dependencies := [], dependents := []\<rparr>"

text \<open>
  The well-formed stores: pairwise distinct ids, the two edge lists inverse to each
  other, every listed id the id of a task of the store, no task depending on itself.
\<close>

definition noDangling :: "task list \<Rightarrow> bool" where
  "noDangling ts =
     (\<forall>a \<in> set ts. set (dependencies a) \<subseteq> id_task ` set ts
                   \<and> set (dependents a) \<subseteq> id_task ` set ts)"

definition noSelfEdge :: "task list \<Rightarrow> bool" where
  "noSelfEdge ts = (\<forall>a \<in> set ts. id_task a \<notin> set (dependencies a))"

definition wellFormed :: "task list \<Rightarrow> bool" where
  "wellFormed ts \<longleftrightarrow>
     distinct (map id_task ts) \<and> symmetric ts \<and> noDangling ts \<and> noSelfEdge ts"

text \<open>The id of a task with its two edge lists as sets.\<close>

definition edges :: "task \<Rightarrow> int \<times> int set \<times> int set" where
  "edges t = (id_task t, set (dependencies t), set (dependents t))"

text \<open>
  What \<^verbatim>\<open>addTaskDependency\<close> and \<^verbatim>\<open>removeTaskDependency\<close>, save included, do to a single
  task when the ids of the store are pairwise distinct.
\<close>

definition addEdgeTo :: "env \<Rightarrow> int \<Rightarrow> int \<Rightarrow> task \<Rightarrow> task" where
  "addEdgeTo e a b t =
     markOverdue (now e)
       (if id_task t = b then pushDependent a (if id_task t = a then pushDependency b t else t)
        else if id_task t = a then pushDependency b t else t)"

definition dropEdgeFrom :: "env \<Rightarrow> int \<Rightarrow> int \<Rightarrow> task \<Rightarrow> task" where
  "dropEdgeFrom e a b t =
     markOverdue (now e)
       (if id_task t = b then dropDependent a (if id_task t = a then dropDependency b t else t)
        else if id_task t = a then dropDependency b t else t)"

text \<open>
  The store while \<^verbatim>\<open>createTask\<close> wires the task it has just pushed: a well-formed store
  followed by the new task, which nothing refers to yet.
\<close>

definition pending :: "int \<Rightarrow> task list \<Rightarrow> bool" where
  "pending N ts \<longleftrightarrow>
     (\<exists>ts0 n. ts = ts0 @ [n] \<and> wellFormed ts0 \<and> N \<notin> id_task ` set ts0
              \<and> id_task n = N \<and> dependents n = [])"

text \<open>
  The store in which \<^verbatim>\<open>createTask\<close> has pushed the record \<open>new\<close> under the id \<open>N\<close> and
  wired it to the tasks \<open>ks\<close>, one after the other: the tasks named in \<open>ks\<close> have \<open>N\<close>
  as their last dependent, \<open>new\<close> depends on the entries of \<open>ks\<close>, each once and in the
  order of their first appearance, and the sweep at the time \<open>n\<close> has run.
\<close>

definition wired :: "int \<Rightarrow> int \<Rightarrow> int list \<Rightarrow> task list \<Rightarrow> task \<Rightarrow> task list" where
  "wired n N ks ts new =
     map (markOverdue n)
       (map (\<lambda>t. if id_task t \<in> set ks then t\<lparr>dependents := dependents t @ [N]\<rparr> else t) ts
        @ [new\<lparr>dependencies := rev (remdups (rev ks))\<rparr>])"

text \<open>
  The dependency relation of a store: \<open>a\<close> is the id of a task that names \<open>b\<close> among
  its dependencies.
\<close>

definition dependsOn :: "task list \<Rightarrow> (int \<times> int) set" where
  "dependsOn ts = {(a, b). \<exists>t. getTask ts a = Some t \<and> b \<in> set (dependencies t)}"

text \<open>The calls that create or delete a task.\<close>

fun createOrDelete :: "operation \<Rightarrow> bool" where
  "createOrDelete (CreateTask taskData) = True"
| "createOrDelete (DeleteTask taskId) = True"
| "createOrDelete _ = False"

text \<open>A run in which no \<^verbatim>\<open>deleteTask\<close> ends in the \<open>TypeError\<close>.\<close>

fun deletesComplete :: "(env \<times> operation) list \<Rightarrow> state \<Rightarrow> bool" where
  "deletesComplete [] s = True"
| "deletesComplete ((e, opn) # rest) s =
     ((case opn of DeleteTask taskId \<Rightarrow> fst (deleteTask e taskId s) \<noteq> Inl TypeError | _ \<Rightarrow> True)
      \<and> deletesComplete rest (step (e, opn) s))"

text \<open>Inputs for the closed examples.\<close>

definition env0 :: "int \<Rightarrow> env" where
  "env0 n = \<lparr>now = n, currentUser = None, localeDate = (\<lambda>d. []),
             utcOffset = (\<lambda>t. 0), localOffset = (\<lambda>t. 0),
             addMonths = (\<lambda>d k. d), addYears = (\<lambda>d k. d)\<rparr>"

definition data0 :: "int list \<Rightarrow> bool \<Rightarrow> taskData" where
  "data0 deps rec =
     \<lparr>d_title = ''t'', d_description = None, d_priority = None, d_status = None,
      d_assignedTo = [], d_dueDate = None, d_startDate = None, d_estimatedHours = None,
      d_dependencies = deps, d_isRecurring = rec,
      d_recurringType = (if rec then Some DAILY else None),
      d_recurringInterval = (if rec then Some 2 else None),
      d_recurringEndDate = None, d_parentRecurringId = None\<rparr>"

definition emptyState :: state where
  "emptyState = \<lparr>tasks = [], recurringTasks = []\<rparr>"

text \<open>One task; two unrelated tasks; task 2 waiting on task 1; the same with a recurring task 1.\<close>

definition oneTask :: state where
  "oneTask = run [(env0 0, CreateTask (data0 [] False))] emptyState"


definition chainTasks :: state where
  "chainTasks = run [(env0 0, CreateTask (data0 [] False)),
                     (env0 0, CreateTask (data0 [1] False))] emptyState"

definition recurringParent :: state where
  "recurringParent = run [(env0 0, CreateTask (data0 [] True)),
                          (env0 0, CreateTask (data0 [1] False))] emptyState"

text \<open>
  A daily recurring task with interval 2 created at time 0, so that its schedule is due
  at 172800000; the same with an end date of one day.
\<close>

definition recurringOnly :: state where
  "recurringOnly = run [(env0 0, CreateTask (data0 [] True))] emptyState"

definition endedSchedule :: state where
  "endedSchedule =
     run [(env0 0, CreateTask ((data0 [] True)\<lparr>d_recurringEndDate := Some 86400000\<rparr>))] emptyState"


text \<open>A store as it may be loaded from the storage: its one task has the id \<open>2 ^ 53\<close>.\<close>

definition largeId :: state where
  "largeId = \<lparr>tasks = map (\<lambda>t. t\<lparr>id_task := 2 ^ 53\<rparr>) (tasks oneTask), recurringTasks = []\<rparr>"

text \<open>
  A recurring task 2 that waits on task 1, and task 1 deleted afterwards: the template of
  the schedule still names task 1.
\<close>

definition orphanedTemplate :: state where
  "orphanedTemplate = run [(env0 0, CreateTask (data0 [] False)),
                           (env0 0, CreateTask (data0 [1] True)),
                           (env0 0, DeleteTask 1)] emptyState"

text \<open>The schedule of \<open>recurringOnly\<close>, daily of interval 2, with a template that asks for weeks.\<close>

definition weeklyTemplate :: state where
  "weeklyTemplate =
     recurringOnly\<lparr>recurringTasks :=
       map (\<lambda>sch. sch\<lparr>template := (template sch)\<lparr>recurringType := Some WEEKLY\<rparr>\<rparr>)
         (recurringTasks recurringOnly)\<rparr>"

text \<open>
  A zone that puts its clocks forward by one hour at the time value 259200000, the end of
  the third day.
\<close>

definition envSwitch :: "int \<Rightarrow> env" where
  "envSwitch n =
     (env0 n)\<lparr>utcOffset := (\<lambda>t. if t < 259200000 then 0 else 3600000),
              localOffset := (\<lambda>t. if t < 262800000 then 0 else 3600000)\<rparr>"

text \<open>A cancelled task that was due at time 0.\<close>

definition cancelledTask :: state where
  "cancelledTask =
     run [(env0 0, CreateTask ((data0 [] False)\<lparr>d_status := Some CANCELLED, d_dueDate := Some 0\<rparr>))]
       emptyState"

section \<open>Properties\<close>

subsection \<open>Lookups and positions\<close>

lemma findIndex_Some:
  "findIndex P xs = Some i \<Longrightarrow> i < length xs \<and> P (xs ! i) \<and> (\<forall>j<i. \<not> P (xs ! j))"
proof (induction xs arbitrary: i)
  case Nil
  then show ?case by simp
next
  case (Cons x xs)
  show ?case
  proof (cases "P x")
    case True
    with Cons.prems show ?thesis by simp
  next
    case False
    with Cons.prems obtain k where k: "findIndex P xs = Some k" "i = Suc k"
      by (auto split: option.splits)
    from Cons.IH[OF k(1)] False k(2) show ?thesis
      by (auto simp: less_Suc_eq_0_disj)
  qed
qed

lemma find_findIndex:
  "List.find P xs = map_option (\<lambda>i. xs ! i) (findIndex P xs)"
  by (induction xs) (auto split: option.splits)

lemma getTask_findIndex:
  "getTask ts x = map_option (\<lambda>i. ts ! i) (findIndex (\<lambda>t. id_task t = x) ts)"
  by (simp add: getTask_def find_findIndex)

lemma findIndex_same_ids:
  "map id_task ts' = map id_task ts \<Longrightarrow>
   findIndex (\<lambda>t. id_task t = x) ts' = findIndex (\<lambda>t. id_task t = x) ts"
proof (induction ts arbitrary: ts')
  case Nil
  then show ?case by simp
next
  case (Cons t ts)
  then obtain u us where "ts' = u # us" "id_task u = id_task t" "map id_task us = map id_task ts"
    by (cases ts') auto
  with Cons.IH[of us] show ?case by simp
qed

lemma id_task_markOverdue [simp]: "id_task (markOverdue n t) = id_task t"
  by (simp add: markOverdue_def split: option.splits)

lemma dependencies_markOverdue [simp]: "dependencies (markOverdue n t) = dependencies t"
  by (simp add: markOverdue_def split: option.splits)

lemma dependents_markOverdue [simp]: "dependents (markOverdue n t) = dependents t"
  by (simp add: markOverdue_def split: option.splits)

lemma status_markOverdue_COMPLETED [simp]:
  "(status (markOverdue n t) = COMPLETED) = (status t = COMPLETED)"
  by (simp add: markOverdue_def split: option.splits)

lemma canStartTask_iff:
  "getTask ts taskId = Some task \<Longrightarrow>
   canStartTask ts taskId =
     (\<forall>depId \<in> set (dependencies task).
        \<exists>depTask. getTask ts depId = Some depTask \<and> status depTask = COMPLETED)"
  by (auto simp: canStartTask_def list_all_iff split: option.splits)

lemma getTask_pointwise:
  assumes "map id_task ts' = map id_task ts" and "getTask ts x = Some t"
  shows "\<exists>j. j < length ts \<and> ts ! j = t \<and> id_task t = x \<and> getTask ts' x = Some (ts' ! j)"
proof -
  from assms(2) obtain j where j: "findIndex (\<lambda>t. id_task t = x) ts = Some j" "t = ts ! j"
    by (auto simp: getTask_findIndex)
  from findIndex_Some[OF j(1)] have "j < length ts" "id_task (ts ! j) = x" by auto
  moreover from findIndex_same_ids[OF assms(1), of x] j(1)
  have "getTask ts' x = Some (ts' ! j)" by (simp add: getTask_findIndex)
  ultimately show ?thesis using j(2) by auto
qed

subsection \<open>What the dependency operations leave alone\<close>

lemma core_markOverdue [simp]: "core (markOverdue n t) = core t"
  by (simp add: core_def markOverdue_def split: option.splits)

lemma id_task_core [simp]: "id_task (core t) = id_task t"
  by (simp add: core_def)

lemma map_core_mutateTask:
  "(\<And>t. core (f t) = core t) \<Longrightarrow> map core (mutateTask x f ts) = map core ts"
  by (induction ts) auto

lemma ids_of_core:
  assumes "map core ts' = map core ts"
  shows "map id_task ts' = map id_task ts"
proof -
  have "map id_task ts' = map id_task (map core ts')" by (simp add: comp_def)
  also have "\<dots> = map id_task (map core ts)" by (simp only: assms)
  also have "\<dots> = map id_task ts" by (simp add: comp_def)
  finally show ?thesis .
qed

lemma core_saveTasks [simp]: "map core (tasks (saveTasks e s)) = map core (tasks s)"
  by (simp add: saveTasks_def updateTaskStatuses_def comp_def)

lemma recurringTasks_saveTasks [simp]: "recurringTasks (saveTasks e s) = recurringTasks s"
  by (simp add: saveTasks_def)

lemma core_edits [simp]:
  "core (pushDependency x t) = core t" "core (pushDependent x t) = core t"
  "core (dropDependency x t) = core t" "core (dropDependent x t) = core t"
  by (simp_all add: core_def pushDependency_def pushDependent_def dropDependency_def
      dropDependent_def)

lemma id_task_edits [simp]:
  "id_task (pushDependency x t) = id_task t" "id_task (pushDependent x t) = id_task t"
  "id_task (dropDependency x t) = id_task t" "id_task (dropDependent x t) = id_task t"
  by (simp_all add: pushDependency_def pushDependent_def dropDependency_def dropDependent_def)

lemma dependencies_edits [simp]:
  "set (dependencies (pushDependency x t)) = insert x (set (dependencies t))"
  "dependencies (pushDependent x t) = dependencies t"
  "set (dependencies (dropDependency x t)) = set (dependencies t) - {x}"
  "dependencies (dropDependent x t) = dependencies t"
  by (auto simp: pushDependency_def pushDependent_def dropDependency_def dropDependent_def)

lemma dependents_edits [simp]:
  "dependents (pushDependency x t) = dependents t"
  "set (dependents (pushDependent x t)) = insert x (set (dependents t))"
  "dependents (dropDependency x t) = dependents t"
  "set (dependents (dropDependent x t)) = set (dependents t) - {x}"
  by (auto simp: pushDependency_def pushDependent_def dropDependency_def dropDependent_def)

lemma core_removeTaskDependency [simp]:
  "map core (tasks (removeTaskDependency e a b s)) = map core (tasks s)"
  by (simp add: removeTaskDependency_def map_core_mutateTask)

lemma recurringTasks_removeTaskDependency [simp]:
  "recurringTasks (removeTaskDependency e a b s) = recurringTasks s"
  by (simp add: removeTaskDependency_def)

lemma core_addTaskDependency [simp]:
  "map core (tasks (snd (addTaskDependency e a b s))) = map core (tasks s)"
  by (simp add: addTaskDependency_def map_core_mutateTask split: option.splits)

lemma recurringTasks_addTaskDependency [simp]:
  "recurringTasks (snd (addTaskDependency e a b s)) = recurringTasks s"
  by (simp add: addTaskDependency_def split: option.splits)

lemma core_removeOldDependencies [simp]:
  "map core (tasks (removeOldDependencies e a old s)) = map core (tasks s)"
  unfolding removeOldDependencies_def
  by (induction old arbitrary: s) auto

lemma recurringTasks_removeOldDependencies [simp]:
  "recurringTasks (removeOldDependencies e a old s) = recurringTasks s"
  unfolding removeOldDependencies_def
  by (induction old arbitrary: s) auto

lemma core_addNewDependencies [simp]:
  "map core (tasks (snd (addNewDependencies e a new s))) = map core (tasks s)"
proof (induction new arbitrary: s)
  case Nil
  then show ?case by simp
next
  case (Cons d new)
  obtain r s' where r: "addTaskDependency e a d s = (r, s')" by (cases "addTaskDependency e a d s")
  then have "map core (tasks s') = map core (tasks s)"
    using core_addTaskDependency[of e a d s] by simp
  with Cons.IH[of s'] r show ?case by (cases r) auto
qed

lemma recurringTasks_addNewDependencies [simp]:
  "recurringTasks (snd (addNewDependencies e a new s)) = recurringTasks s"
proof (induction new arbitrary: s)
  case Nil
  then show ?case by simp
next
  case (Cons d new)
  obtain r s' where r: "addTaskDependency e a d s = (r, s')" by (cases "addTaskDependency e a d s")
  then have "recurringTasks s' = recurringTasks s"
    using recurringTasks_addTaskDependency[of e a d s] by simp
  with Cons.IH[of s'] r show ?case by (cases r) auto
qed

lemma core_updateTaskDependencies [simp]:
  "map core (tasks (snd (updateTaskDependencies e a new s))) = map core (tasks s)"
  by (simp add: updateTaskDependencies_def split: option.splits)

lemma recurringTasks_updateTaskDependencies [simp]:
  "recurringTasks (snd (updateTaskDependencies e a new s)) = recurringTasks s"
  by (simp add: updateTaskDependencies_def split: option.splits)

lemma createTask_cases:
  "createTask e d s =
     (let newTask = newTaskRecord e d (tasks s);
          s1 = saveTasks e (s\<lparr>tasks := tasks s @ [newTask]\<rparr>);
          p = (if dependencies newTask \<noteq> []
               then updateTaskDependencies e (id_task newTask) (dependencies newTask) s1
               else (Inr (), s1))
      in case fst p of
           Inl err \<Rightarrow> (Inl err, snd p)
         | Inr _ \<Rightarrow>
             (let q = (if isRecurring newTask
                       then createRecurringTaskSchedule e (last (tasks (snd p))) (snd p)
                       else (Inr (), snd p))
              in case fst q of
                   Inl err \<Rightarrow> (Inl err, snd q)
                 | Inr _ \<Rightarrow> (Inr (last (tasks (snd q))), snd q)))"
  by (auto simp add: createTask_def Let_def split: prod.splits sum.splits)

lemma tasks_createRecurringTaskSchedule [simp]:
  "tasks (snd (createRecurringTaskSchedule e t s)) = tasks s"
  by (simp add: createRecurringTaskSchedule_def split: sum.splits)

lemma createRecurringTaskSchedule_throw:
  "fst (createRecurringTaskSchedule e t s) = Inl err \<Longrightarrow>
   snd (createRecurringTaskSchedule e t s) = s"
  by (simp add: createRecurringTaskSchedule_def split: sum.splits)

lemma core_createTask:
  "map core (tasks (snd (createTask e d s))) = map core (tasks s) @ [core (newTaskRecord e d (tasks s))]"
  by (simp add: createTask_cases Let_def split: sum.splits)

lemma createTask_throw_recurringTasks:
  "fst (createTask e d s) = Inl err \<Longrightarrow> recurringTasks (snd (createTask e d s)) = recurringTasks s"
  by (simp add: createTask_cases Let_def createRecurringTaskSchedule_throw
      split: sum.splits if_splits)

subsection \<open>The cycle check\<close>


lemma getTask_map:
  "(\<And>t. id_task (g t) = id_task t) \<Longrightarrow> getTask (map g ts) y = map_option g (getTask ts y)"
  by (induction ts) (auto simp: getTask_def)

lemma wouldCreate_self: "wouldCreateCircularDependency ts a a visited"
  by (subst wouldCreateCircularDependency.simps) simp


subsection \<open>Identifiers\<close>

lemma foldl_max_bounds:
  "a \<le> foldl (\<lambda>m t. max m (id_task t)) a ts
   \<and> (\<forall>t \<in> set ts. id_task t \<le> foldl (\<lambda>m t. max m (id_task t)) a ts)
   \<and> foldl (\<lambda>m t. max m (id_task t)) a ts \<in> insert a (id_task ` set ts)"
proof (induction ts arbitrary: a)
  case Nil
  then show ?case by simp
next
  case (Cons t ts)
  from Cons.IH[of "max a (id_task t)"] show ?case
    by (auto simp: max_def split: if_splits)
qed

lemma ulp_small: "n < 2 ^ 53 \<Longrightarrow> ulp n = 1"
  by (subst ulp.simps) simp

lemma roundDouble_exact:
  assumes "0 \<le> n" and "n \<le> 2 ^ 53"
  shows "roundDouble n = n"
proof (cases "n < 2 ^ 53")
  case True
  then show ?thesis by (simp add: roundDouble_def ulp_small)
next
  case False
  with assms have n: "n = 2 ^ 53" by simp
  have "ulp (2 ^ 53) = 2 * ulp (2 ^ 52)"
    by (subst ulp.simps) simp
  then have "ulp (2 ^ 53) = 2"
    by (simp add: ulp_small)
  then show ?thesis
    by (simp add: roundDouble_def n)
qed

lemma fold_max_Max:
  "foldl (\<lambda>m t. max m (id_task t)) 0 ts = Max (insert 0 (id_task ` set ts))"
proof -
  let ?m = "foldl (\<lambda>m t. max m (id_task t)) 0 ts"
  from foldl_max_bounds[of 0 ts]
  have "Max (insert 0 (id_task ` set ts)) = ?m"
    by (intro Max_eqI) auto
  then show ?thesis by simp
qed

lemma getNextTaskId_Max:
  assumes "\<forall>t \<in> set ts. id_task t < 2 ^ 53"
  shows "getNextTaskId ts = Max (insert 0 (id_task ` set ts)) + 1"
proof -
  let ?m = "foldl (\<lambda>m t. max m (id_task t)) 0 ts"
  from foldl_max_bounds[of 0 ts] assms have "0 \<le> ?m" "?m < 2 ^ 53"
    by auto
  then have "roundDouble (?m + 1) = ?m + 1"
    by (intro roundDouble_exact) simp_all
  then show ?thesis
    by (simp add: getNextTaskId_def fold_max_Max)
qed

lemma getNextTaskId_fresh:
  assumes "\<forall>t \<in> set ts. id_task t < 2 ^ 53"
  shows "getNextTaskId ts \<notin> id_task ` set ts"
proof -
  let ?m = "foldl (\<lambda>m t. max m (id_task t)) 0 ts"
  from foldl_max_bounds[of 0 ts] assms have "0 \<le> ?m" "?m < 2 ^ 53"
    by auto
  then have "roundDouble (?m + 1) = ?m + 1"
    by (intro roundDouble_exact) simp_all
  then have "getNextTaskId ts = ?m + 1"
    by (simp add: getNextTaskId_def)
  with foldl_max_bounds[of 0 ts] show ?thesis by fastforce
qed

lemma getNextTaskId_bound:
  assumes "\<forall>t \<in> set ts. id_task t \<le> B" and "0 \<le> B" and "B < 2 ^ 53"
  shows "getNextTaskId ts \<le> B + 1"
proof -
  let ?m = "foldl (\<lambda>m t. max m (id_task t)) 0 ts"
  from foldl_max_bounds[of 0 ts] assms have m: "0 \<le> ?m" "?m \<le> B"
    by auto
  with assms(3) have "roundDouble (?m + 1) = ?m + 1"
    by (intro roundDouble_exact) simp_all
  with m show ?thesis
    by (simp add: getNextTaskId_def)
qed

lemma ids_createTask:
  "map id_task (tasks (snd (createTask e d s))) = map id_task (tasks s) @ [getNextTaskId (tasks s)]"
proof -
  have "map id_task (tasks (snd (createTask e d s))) = map id_task (map core (tasks (snd (createTask e d s))))"
    by (simp add: comp_def)
  also have "\<dots> = map id_task (map core (tasks s) @ [core (newTaskRecord e d (tasks s))])"
    by (simp only: core_createTask)
  also have "\<dots> = map id_task (tasks s) @ [getNextTaskId (tasks s)]"
    by (simp add: comp_def newTaskRecord_def)
  finally show ?thesis .
qed

lemma id_task_mergeUpdates [simp]: "id_task (mergeUpdates t u) = id_task t"
  by (simp add: mergeUpdates_def)

lemma id_task_handleStatusChange [simp]: "id_task (handleStatusChange e t a b) = id_task t"
  by (simp add: handleStatusChange_def)

lemma id_task_buildUpdatedTask [simp]: "id_task (buildUpdatedTask e t u) = id_task t"
  by (simp add: buildUpdatedTask_def Let_def split: option.splits)

lemma ids_saveTasks [simp]: "map id_task (tasks (saveTasks e s)) = map id_task (tasks s)"
  by (simp add: saveTasks_def updateTaskStatuses_def comp_def)

lemma ids_updateTaskDependencies [simp]:
  "map id_task (tasks (snd (updateTaskDependencies e a new s))) = map id_task (tasks s)"
  by (rule ids_of_core) simp

lemma ids_updateTask:
  "map id_task (tasks (snd (updateTask e x u s))) = map id_task (tasks s)"
proof (cases "findIndex (\<lambda>t. id_task t = x) (tasks s)")
  case None
  then show ?thesis by (simp add: updateTask_def)
next
  case (Some i)
  define p where "p = (case u_dependencies u of None \<Rightarrow> (Inr (), s)
                        | Some deps \<Rightarrow> updateTaskDependencies e x deps s)"
  have p_ids: "map id_task (tasks (snd p)) = map id_task (tasks s)"
    by (simp add: p_def split: option.splits)
  from findIndex_Some[OF Some] have il: "i < length (tasks s)" by simp
  have upd_same: "(map id_task (tasks s))[i := id_task (tasks s ! i)] = map id_task (tasks s)"
    using il by (simp add: list_update_same_conv)
  show ?thesis
  proof (cases p)
    case (Pair r s1)
    with p_ids have s1: "map id_task (tasks s1) = map id_task (tasks s)" by simp
    show ?thesis
    proof (cases r)
      case (Inl err)
      with Some Pair s1 show ?thesis
        by (simp add: updateTask_def Let_def p_def[symmetric])
    next
      case (Inr v)
      with Some Pair s1 upd_same show ?thesis
        by (simp add: updateTask_def Let_def p_def[symmetric] map_update split: option.splits)
    qed
  qed
qed

lemma ids_removeDependencies [simp]:
  "map id_task (removeDependencies x ts) = map id_task ts"
  by (simp add: removeDependencies_def comp_def)

lemma ids_deleteTask:
  "map id_task (tasks (snd (deleteTask e x s))) = map id_task (tasks s)
   \<or> (\<exists>i. map id_task (tasks (snd (deleteTask e x s)))
            = take i (map id_task (tasks s)) @ drop (Suc i) (map id_task (tasks s)))"
proof (cases "findIndex (\<lambda>t. id_task t = x) (tasks s)")
  case None
  then show ?thesis by (simp add: deleteTask_def)
next
  case (Some i)
  show ?thesis
  proof (cases "isRecurring (tasks s ! i)")
    case True
    with Some show ?thesis by (simp add: deleteTask_def Let_def)
  next
    case False
    with Some have "map id_task (tasks (snd (deleteTask e x s)))
            = take i (map id_task (tasks s)) @ drop (Suc i) (map id_task (tasks s))"
      by (simp add: deleteTask_def Let_def take_map[symmetric] drop_map[symmetric])
    then show ?thesis by blast
  qed
qed

lemma distinct_remove_nth:
  "distinct xs \<Longrightarrow> distinct (take i xs @ drop (Suc i) xs)"
  using set_take_disj_set_drop_if_distinct[of xs i "Suc i"] by simp

lemma step_ids:
  "set (map id_task (tasks (step eo s)))
     \<subseteq> insert (getNextTaskId (tasks s)) (set (map id_task (tasks s)))"
proof (cases eo)
  case (Pair e opn)
  show ?thesis
  proof (cases opn)
    case (CreateTask d)
    with Pair show ?thesis by (auto simp: ids_createTask)
  next
    case (UpdateTask x u)
    with Pair show ?thesis by (auto simp: ids_updateTask)
  next
    case (DeleteTask x)
    from ids_deleteTask[of e x s]
    have "set (map id_task (tasks (snd (deleteTask e x s)))) \<subseteq> set (map id_task (tasks s))"
    proof (elim disjE exE)
      fix i
      assume h: "map id_task (tasks (snd (deleteTask e x s)))
                   = take i (map id_task (tasks s)) @ drop (Suc i) (map id_task (tasks s))"
      have "set (take i (map id_task (tasks s))) \<subseteq> set (map id_task (tasks s))"
        by (rule set_take_subset)
      moreover have "set (drop (Suc i) (map id_task (tasks s))) \<subseteq> set (map id_task (tasks s))"
        by (rule set_drop_subset)
      ultimately show ?thesis by (simp only: h set_append) blast
    qed simp
    with Pair DeleteTask show ?thesis by auto
  next
    case (AddEdge a b)
    have "map id_task (tasks (snd (addTaskDependency e a b s))) = map id_task (tasks s)"
      by (rule ids_of_core) simp
    with Pair AddEdge show ?thesis by auto
  next
    case (RemoveEdge a b)
    have "map id_task (tasks (removeTaskDependency e a b s)) = map id_task (tasks s)"
      by (rule ids_of_core) simp
    with Pair RemoveEdge show ?thesis by auto
  qed
qed

lemma step_bound:
  assumes "\<forall>t \<in> set (tasks s). id_task t \<le> B" and "0 \<le> B" and "B < 2 ^ 53"
  shows "\<forall>t \<in> set (tasks (step eo s)). id_task t \<le> B + 1"
proof
  fix t assume "t \<in> set (tasks (step eo s))"
  then have "id_task t \<in> set (map id_task (tasks (step eo s)))" by simp
  with step_ids[of eo s]
  have "id_task t = getNextTaskId (tasks s) \<or> id_task t \<in> set (map id_task (tasks s))"
    by blast
  then show "id_task t \<le> B + 1"
  proof
    assume "id_task t = getNextTaskId (tasks s)"
    with getNextTaskId_bound[OF assms] show ?thesis by simp
  next
    assume "id_task t \<in> set (map id_task (tasks s))"
    then obtain t0 where "t0 \<in> set (tasks s)" "id_task t = id_task t0" by auto
    with assms(1) show ?thesis by fastforce
  qed
qed

lemma step_distinct:
  assumes "distinct (map id_task (tasks s))"
    and small: "\<forall>t \<in> set (tasks s). id_task t < 2 ^ 53"
  shows "distinct (map id_task (tasks (step eo s)))"
proof (cases eo)
  case (Pair e opn)
  show ?thesis
  proof (cases opn)
    case (CreateTask d)
    with Pair assms getNextTaskId_fresh[OF small] show ?thesis
      by (simp add: ids_createTask)
  next
    case (UpdateTask x u)
    with Pair assms show ?thesis by (simp add: ids_updateTask)
  next
    case (DeleteTask x)
    from ids_deleteTask[of e x s] assms
    have "distinct (map id_task (tasks (snd (deleteTask e x s))))"
      using distinct_remove_nth[of "map id_task (tasks s)"] by (elim disjE exE) simp_all
    with Pair DeleteTask show ?thesis by simp
  next
    case (AddEdge a b)
    have "map id_task (tasks (snd (addTaskDependency e a b s))) = map id_task (tasks s)"
      by (rule ids_of_core) simp
    with Pair AddEdge assms show ?thesis by simp
  next
    case (RemoveEdge a b)
    have "map id_task (tasks (removeTaskDependency e a b s)) = map id_task (tasks s)"
      by (rule ids_of_core) simp
    with Pair RemoveEdge assms show ?thesis by simp
  qed
qed

lemma run_distinct:
  assumes "distinct (map id_task (tasks s))"
    and "\<forall>t \<in> set (tasks s). id_task t \<le> B" and "0 \<le> B"
    and "B + int (length ops) \<le> 2 ^ 53"
  shows "distinct (map id_task (tasks (run ops s)))
         \<and> (\<forall>t \<in> set (tasks (run ops s)). id_task t \<le> B + int (length ops))"
  using assms
proof (induction ops arbitrary: s B)
  case Nil
  then show ?case by (simp add: run_def)
next
  case (Cons eo ops)
  from Cons.prems have B: "B < 2 ^ 53" by simp
  with Cons.prems(2) have small: "\<forall>t \<in> set (tasks s). id_task t < 2 ^ 53" by fastforce
  have d: "distinct (map id_task (tasks (step eo s)))"
    by (rule step_distinct[OF Cons.prems(1) small])
  have b: "\<forall>t \<in> set (tasks (step eo s)). id_task t \<le> B + 1"
    by (rule step_bound[OF Cons.prems(2,3) B])
  from Cons.prems have "0 \<le> B + 1" "B + 1 + int (length ops) \<le> 2 ^ 53" by simp_all
  from Cons.IH[OF d b this] show ?case
    by (simp add: run_def add.assoc)
qed

lemma getNextTaskId_cong:
  "map id_task ts' = map id_task ts \<Longrightarrow> getNextTaskId ts' = getNextTaskId ts"
proof -
  assume h: "map id_task ts' = map id_task ts"
  have "id_task ` set ts' = set (map id_task ts')" by simp
  also have "\<dots> = id_task ` set ts" by (simp only: h) simp
  finally show ?thesis by (simp add: getNextTaskId_def fold_max_Max)
qed

lemma findIndex_map: "findIndex (\<lambda>t. P (f t)) ts = findIndex P (map f ts)"
  by (induction ts) auto

lemma findIndex_snoc_fresh:
  "\<forall>t \<in> set xs. \<not> P t \<Longrightarrow> P n \<Longrightarrow> findIndex P (xs @ [n]) = Some (length xs)"
  by (induction xs) auto

subsection \<open>The scheduler loop\<close>

lemma processSchedules_inactive:
  "\<forall>x \<in> set xs. \<not> isActive x \<Longrightarrow> processSchedules e xs s = (Inr xs, s)"
  by (induction xs) (auto simp: processSchedule_def)

lemma processSchedules_append:
  "processSchedules e (xs @ ys) s =
     (case processSchedules e xs s of
        (Inl err, s') \<Rightarrow> (Inl err, s')
      | (Inr xs', s') \<Rightarrow>
          (case processSchedules e ys s' of
             (Inl err, s'') \<Rightarrow> (Inl err, s'')
           | (Inr ys', s'') \<Rightarrow> (Inr (xs' @ ys'), s'')))"
proof (induction xs arbitrary: s)
  case Nil
  then show ?case by (simp split: prod.splits sum.splits)
next
  case (Cons x xs)
  show ?case
    by (simp add: Cons.IH split: prod.splits sum.splits)
qed

lemma createTask_result:
  assumes "fst (createTask e d s) = Inr t"
  shows "t = last (tasks (snd (createTask e d s)))"
  using assms
  by (auto simp: createTask_def Let_def split: prod.splits sum.splits if_splits)

lemma createTask_ok_recurringTasks:
  assumes "\<not> d_isRecurring d"
  shows "recurringTasks (snd (createTask e d s)) = recurringTasks s"
  using assms
  by (simp add: createTask_cases Let_def newTaskRecord_def split: sum.splits)

lemma last_createTask_core:
  "core (last (tasks (snd (createTask e d s)))) = core (newTaskRecord e d (tasks s))"
proof -
  have ne: "tasks (snd (createTask e d s)) \<noteq> []"
    using core_createTask[of e d s] by auto
  have "core (last (tasks (snd (createTask e d s)))) = last (map core (tasks (snd (createTask e d s))))"
    using ne by (simp add: last_map)
  also have "\<dots> = core (newTaskRecord e d (tasks s))"
    by (simp only: core_createTask) simp
  finally show ?thesis .
qed

lemma dueDate_core [simp]: "dueDate (core t) = dueDate t"
  by (simp add: core_def)

lemma last_createTask_dueDate:
  "dueDate (last (tasks (snd (createTask e d s)))) = d_dueDate d"
proof -
  have "dueDate (last (tasks (snd (createTask e d s)))) = dueDate (core (last (tasks (snd (createTask e d s)))))"
    by simp
  also have "\<dots> = d_dueDate d"
    by (simp only: last_createTask_core) (simp add: newTaskRecord_def)
  finally show ?thesis .
qed

lemma last_createTask_id:
  "id_task (last (tasks (snd (createTask e d s)))) = getNextTaskId (tasks s)"
proof -
  have "id_task (last (tasks (snd (createTask e d s)))) = id_task (core (last (tasks (snd (createTask e d s)))))"
    by simp
  also have "\<dots> = getNextTaskId (tasks s)"
    by (simp only: last_createTask_core) (simp add: newTaskRecord_def)
  finally show ?thesis .
qed


lemma endDate_test:
  "(\<forall>d. endDate sch = Some d \<longrightarrow> D \<le> d) \<Longrightarrow> now e = D \<Longrightarrow>
   (case endDate sch of None \<Rightarrow> False | Some d \<Rightarrow> d < now e) = False"
  by (cases "endDate sch") auto

lemma processSchedules_single:
  assumes "\<forall>x \<in> set pre \<union> set post. \<not> isActive x"
    and "processSchedules e [sch] s = (Inr [sch'], s')"
  shows "processSchedules e (pre @ sch # post) s = (Inr (pre @ sch' # post), s')"
proof -
  from assms(1) have p: "processSchedules e pre s = (Inr pre, s)"
    and q: "processSchedules e post s' = (Inr post, s')"
    by (simp_all add: processSchedules_inactive)
  have "processSchedules e ([sch] @ post) s = (Inr ([sch'] @ post), s')"
    by (subst processSchedules_append) (simp only: assms(2) q prod.case sum.case)
  then have r: "processSchedules e (sch # post) s = (Inr (sch' # post), s')"
    by simp
  show ?thesis
    by (subst processSchedules_append) (simp only: p r prod.case sum.case)
qed

lemma processSchedules_Cons_Inr:
  assumes "processSchedules e (sch # rest) s = (Inr out, s')"
  shows "\<exists>sch' rest' sm. processSchedule e sch s = (Inr sch', sm)
         \<and> processSchedules e rest sm = (Inr rest', s') \<and> out = sch' # rest'"
  using assms
  by (auto split: prod.splits sum.splits)

lemma processSchedules_append_Inr:
  assumes "processSchedules e (xs @ ys) s = (Inr out, s')"
  shows "\<exists>xs' ys' sm. processSchedules e xs s = (Inr xs', sm)
           \<and> processSchedules e ys sm = (Inr ys', s') \<and> out = xs' @ ys'"
  using assms
  by (auto simp add: processSchedules_append split: prod.splits sum.splits)

lemma processSchedules_length:
  "processSchedules e xs s = (Inr out, s') \<Longrightarrow> length out = length xs"
proof (induction xs arbitrary: s out)
  case Nil
  then show ?case by simp
next
  case (Cons x xs)
  from processSchedules_Cons_Inr[OF Cons.prems] obtain x' rest' sm where
    "processSchedules e xs sm = (Inr rest', s')" "out = x' # rest'" by blast
  with Cons.IH show ?case by simp
qed

lemma createRecurringTaskInstance_frame:
  "(\<exists>extra. map core (tasks (snd (createRecurringTaskInstance e sch s))) = map core (tasks s) @ extra)
   \<and> recurringTasks (snd (createRecurringTaskInstance e sch s)) = recurringTasks s"
proof -
  have rt: "recurringTasks (snd (createTask e (instanceData e sch) s)) = recurringTasks s"
    by (rule createTask_ok_recurringTasks) (simp add: instanceData_def Let_def)
  obtain r s' where c: "createTask e (instanceData e sch) s = (r, s')"
    by (cases "createTask e (instanceData e sch) s")
  with core_createTask[of e "instanceData e sch" s] rt
  have "(\<exists>extra. map core (tasks s') = map core (tasks s) @ extra)
        \<and> recurringTasks s' = recurringTasks s" by simp
  with c show ?thesis
    by (cases r) (simp_all add: createRecurringTaskInstance_def split: sum.splits)
qed

lemma processSchedule_frame:
  "(\<exists>extra. map core (tasks (snd (processSchedule e sch s))) = map core (tasks s) @ extra)
   \<and> recurringTasks (snd (processSchedule e sch s)) = recurringTasks s"
  using createRecurringTaskInstance_frame[of e sch s]
  by (simp add: processSchedule_def)

lemma processSchedules_frame:
  "(\<exists>extra. map core (tasks (snd (processSchedules e xs s))) = map core (tasks s) @ extra)
   \<and> recurringTasks (snd (processSchedules e xs s)) = recurringTasks s"
proof (induction xs arbitrary: s)
  case Nil
  then show ?case by simp
next
  case (Cons x xs)
  obtain r sm where bs: "processSchedule e x s = (r, sm)" by (cases "processSchedule e x s")
  with processSchedule_frame[of e x s]
  have b: "\<exists>extra. map core (tasks sm) = map core (tasks s) @ extra"
    "recurringTasks sm = recurringTasks s" by simp_all
  show ?case
  proof (cases r)
    case (Inl err)
    with bs b show ?thesis by simp
  next
    case (Inr x')
    have "snd (processSchedules e (x # xs) s) = snd (processSchedules e xs sm)"
      using bs Inr by (simp split: prod.splits sum.splits)
    with Cons.IH[of sm] b show ?thesis by auto
  qed
qed

lemma processSchedules_keeps_waiting:
  "processSchedules e xs s = (Inr out, s') \<Longrightarrow> k < length xs \<Longrightarrow>
   (\<And>st. processSchedule e (xs ! k) st = (Inr (xs ! k), st)) \<Longrightarrow> out ! k = xs ! k"
proof (induction xs arbitrary: s out k)
  case Nil
  then show ?case by simp
next
  case (Cons x xs)
  from processSchedules_Cons_Inr[OF Cons.prems(1)] obtain x' rest' sm where
    h: "processSchedule e x s = (Inr x', sm)"
     "processSchedules e xs sm = (Inr rest', s')" "out = x' # rest'" by blast
  show ?case
  proof (cases k)
    case 0
    with Cons.prems(3)[of s] h(1) have "x' = x" by simp
    with 0 h(3) show ?thesis by simp
  next
    case (Suc j)
    with Cons.prems have "rest' ! j = xs ! j"
      by (intro Cons.IH[OF h(2)]) simp_all
    with Suc h(3) show ?thesis by simp
  qed
qed

lemma calculateNextDueDate_daily:
  assumes "recurringType task = Some DAILY"
    and "calculateNextDueDate e task D = Inr x"
  shows "x = D + utcOffset e D + recurringInterval task * 86400000
               - localOffset e (D + utcOffset e D + recurringInterval task * 86400000)"
    and "timeClip D = Some D" and "setDateBy e D (recurringInterval task) = Some x"
  using assms
  by (auto simp: calculateNextDueDate_def toISOString_def timeClip_def setDateBy_def Let_def
      split: option.splits if_splits)

lemma calculateNextDueDate_daily_Inr:
  assumes "recurringType task = Some DAILY"
    and "timeClip D \<noteq> None" and "setDateBy e D (recurringInterval task) \<noteq> None"
  shows "\<exists>x. calculateNextDueDate e task D = Inr x"
  using assms
  by (auto simp: calculateNextDueDate_def toISOString_def timeClip_def
      split: option.splits if_splits)

lemma createTask_plain_returns:
  assumes "d_dependencies d = []" and "\<not> d_isRecurring d"
  shows "\<exists>t. fst (createTask e d s) = Inr t"
  using assms
  by (simp add: createTask_def Let_def newTaskRecord_def)

lemma createRecurringTaskSchedule_template:
  assumes "createRecurringTaskSchedule e t s = (Inr (), s')"
  shows "\<exists>sch. recurringTasks s' = recurringTasks s @ [sch] \<and> isActive sch
           \<and> recurringType (template sch) = type_schedule sch
           \<and> recurringInterval (template sch) = interval sch"
  using assms
  by (auto simp: createRecurringTaskSchedule_def split: sum.splits)

lemma processRecurringTasks_throw:
  assumes "processRecurringTasks e s = (Inl err, s1)"
  shows "recurringTasks s1 = recurringTasks s"
    and "\<exists>extra. map id_task (tasks s1) = map id_task (tasks s) @ extra"
proof -
  from assms have s1: "s1 = snd (processSchedules e (recurringTasks s) s)"
    by (auto simp: processRecurringTasks_def split: prod.splits sum.splits)
  from processSchedules_frame[of e "recurringTasks s" s]
  show "recurringTasks s1 = recurringTasks s" by (simp add: s1)
  from processSchedules_frame[of e "recurringTasks s" s] obtain extra where
    ex: "map core (tasks s1) = map core (tasks s) @ extra" by (auto simp: s1)
  have "map id_task (tasks s1) = map id_task (map core (tasks s1))" by (simp add: comp_def)
  also have "\<dots> = map id_task (tasks s) @ map id_task extra"
    by (simp only: ex) (simp add: comp_def)
  finally show "\<exists>extra. map id_task (tasks s1) = map id_task (tasks s) @ extra" by blast
qed

subsection \<open>Updates without dependencies, the overdue query, deletion\<close>

lemma updateTask_no_dependencies:
  assumes "findIndex (\<lambda>t. id_task t = x) (tasks s) = Some i" and "u_dependencies u = None"
  shows "updateTask e x u s =
     (Inr (markOverdue (now e) (buildUpdatedTask e (tasks s ! i) u)),
      s\<lparr>tasks := updateTaskStatuses (now e) ((tasks s)[i := buildUpdatedTask e (tasks s ! i) u])\<rparr>)"
proof -
  from findIndex_Some[OF assms(1)] have "i < length (tasks s)" by simp
  then show ?thesis
    using assms
    by (simp add: updateTask_def Let_def saveTasks_def updateTaskStatuses_def)
qed

lemma getOverdueTasks_filter:
  "getOverdueTasks n ts =
     filter (\<lambda>t. (\<exists>d. dueDate t = Some d \<and> d < n) \<and> status t \<noteq> COMPLETED) ts"
  unfolding getOverdueTasks_def
  by (rule filter_cong) (auto split: option.splits)

lemma progressUpdates_fields:
  "u_progress (progressUpdates e task p hours) = Some (max 0 (min 100 p))"
  "u_dependencies (progressUpdates e task p hours) = None"
  "u_dueDate (progressUpdates e task p hours) = None"
  "u_status (progressUpdates e task p hours)
     = (if p = 100 \<and> status task \<noteq> COMPLETED then Some COMPLETED
        else if 0 < p \<and> status task = PENDING then Some IN_PROGRESS else None)"
  "u_completedAt (progressUpdates e task p hours)
     = (if p = 100 \<and> status task \<noteq> COMPLETED then Some (now e) else None)"
  by (cases hours; simp add: progressUpdates_def Let_def noUpdates_def)+

lemma buildUpdatedTask_fields:
  "progress (buildUpdatedTask e t u)
     = (if u_status u = Some COMPLETED \<and> status t \<noteq> COMPLETED then 100
        else case u_progress u of None \<Rightarrow> progress t | Some p \<Rightarrow> p)"
  "status (buildUpdatedTask e t u) = (case u_status u of None \<Rightarrow> status t | Some st \<Rightarrow> st)"
  "completedAt (buildUpdatedTask e t u)
     = (if u_status u = Some COMPLETED \<and> status t \<noteq> COMPLETED then Some (now e)
        else case u_completedAt u of None \<Rightarrow> completedAt t | Some c \<Rightarrow> Some c)"
  "dueDate (buildUpdatedTask e t u) = (case u_dueDate u of None \<Rightarrow> dueDate t | Some d \<Rightarrow> Some d)"
  by (auto simp: buildUpdatedTask_def Let_def mergeUpdates_def handleStatusChange_def
      split: option.splits)

lemma markOverdue_fields:
  "progress (markOverdue n t) = progress t"
  "completedAt (markOverdue n t) = completedAt t"
  "status (markOverdue n t)
     = (if (\<exists>d. dueDate t = Some d \<and> d < n) \<and> status t \<noteq> COMPLETED \<and> status t \<noteq> CANCELLED
        then OVERDUE else status t)"
  by (auto simp: markOverdue_def split: option.splits)

lemma updateTaskProgress_upto_100:
  assumes g: "getTask (tasks s) taskId = Some task" and p: "p \<le> 100"
  shows "\<exists>t. fst (updateTaskProgress e taskId p hours s) = Inr t
           \<and> progress t = max 0 (min 100 p)
           \<and> (p = 100 \<and> status task \<noteq> COMPLETED \<longrightarrow>
                 status t = COMPLETED \<and> completedAt t = Some (now e))
           \<and> (p \<noteq> 100 \<and> 0 < p \<and> status task = PENDING \<longrightarrow>
                 status t = (if \<exists>d. dueDate task = Some d \<and> d < now e
                             then OVERDUE else IN_PROGRESS))"
proof -
  from g obtain i where i: "findIndex (\<lambda>t. id_task t = taskId) (tasks s) = Some i"
    and ti: "tasks s ! i = task"
    by (auto simp: getTask_findIndex)
  let ?u = "progressUpdates e task p hours"
  let ?t = "markOverdue (now e) (buildUpdatedTask e task ?u)"
  have res: "fst (updateTaskProgress e taskId p hours s) = Inr ?t"
    using g
    by (simp add: updateTaskProgress_def
        updateTask_no_dependencies[OF i progressUpdates_fields(2)] ti)
  have "progress ?t = max 0 (min 100 p)"
    using p by (simp add: markOverdue_fields buildUpdatedTask_fields progressUpdates_fields)
  moreover have "status ?t = COMPLETED \<and> completedAt ?t = Some (now e)"
    if "p = 100 \<and> status task \<noteq> COMPLETED"
    using that by (simp add: markOverdue_fields buildUpdatedTask_fields progressUpdates_fields)
  moreover have "status ?t = (if \<exists>d. dueDate task = Some d \<and> d < now e
                             then OVERDUE else IN_PROGRESS)"
    if "p \<noteq> 100 \<and> 0 < p \<and> status task = PENDING"
    using that by (simp add: markOverdue_fields buildUpdatedTask_fields progressUpdates_fields)
  ultimately show ?thesis using res by blast
qed

lemma removeDependencies_clean:
  "t \<in> set (removeDependencies x ts) \<Longrightarrow> x \<notin> set (dependencies t) \<and> x \<notin> set (dependents t)"
  by (auto simp: removeDependencies_def)

lemma deleteTask_not_recurring:
  assumes i: "findIndex (\<lambda>t. id_task t = x) (tasks s) = Some i"
    and nr: "\<not> isRecurring (tasks s ! i)"
  shows "deleteTask e x s =
           (Inr True,
            s\<lparr>tasks := updateTaskStatuses (now e)
                 (removeDependencies x (take i (tasks s) @ drop (Suc i) (tasks s)))\<rparr>)"
  using assms
  by (simp add: deleteTask_def Let_def saveTasks_def removeDependencies_def take_map drop_map)

lemma deleteTask_not_recurring_clean:
  assumes i: "findIndex (\<lambda>t. id_task t = x) (tasks s) = Some i"
    and nr: "\<not> isRecurring (tasks s ! i)"
    and t: "t \<in> set (tasks (snd (deleteTask e x s)))"
  shows "x \<notin> set (dependencies t) \<and> x \<notin> set (dependents t)"
proof -
  from t obtain t0 where "t = markOverdue (now e) t0"
    and "t0 \<in> set (removeDependencies x (take i (tasks s) @ drop (Suc i) (tasks s)))"
    by (auto simp: deleteTask_not_recurring[OF i nr] updateTaskStatuses_def)
  with removeDependencies_clean[of t0 x] show ?thesis by simp
qed

lemma isRecurring_core: "isRecurring (core t) = isRecurring t"
  by (simp add: core_def)

lemma delete_created:
  assumes small: "\<forall>t \<in> set (tasks s). id_task t < 2 ^ 53" and nr: "\<not> d_isRecurring d"
  shows "fst (deleteTask e' (getNextTaskId (tasks s)) (snd (createTask e d s))) = Inr True"
    and "map id_task (tasks (snd (deleteTask e' (getNextTaskId (tasks s)) (snd (createTask e d s)))))
           = map id_task (tasks s)"
proof -
  let ?N = "getNextTaskId (tasks s)"
  let ?s' = "snd (createTask e d s)"
  have ids: "map id_task (tasks ?s') = map id_task (tasks s) @ [?N]"
    by (rule ids_createTask)
  have len: "length (tasks ?s') = Suc (length (tasks s))"
    using arg_cong[OF ids, of length] by simp
  have fresh: "\<forall>i \<in> set (map id_task (tasks s)). \<not> i = ?N"
    using getNextTaskId_fresh[OF small] by (metis image_set)
  have "findIndex (\<lambda>t. id_task t = ?N) (tasks ?s') = findIndex (\<lambda>i. i = ?N) (map id_task (tasks ?s'))"
    by (rule findIndex_map)
  also have "\<dots> = Some (length (map id_task (tasks s)))"
    unfolding ids by (rule findIndex_snoc_fresh[OF fresh]) simp
  finally have i: "findIndex (\<lambda>t. id_task t = ?N) (tasks ?s') = Some (length (tasks s))"
    by simp
  have "isRecurring (tasks ?s' ! length (tasks s)) = isRecurring (map core (tasks ?s') ! length (tasks s))"
    using len by (simp add: isRecurring_core)
  also have "\<dots> = isRecurring (newTaskRecord e d (tasks s))"
    by (simp only: core_createTask) (simp add: nth_append isRecurring_core)
  finally have nr': "\<not> isRecurring (tasks ?s' ! length (tasks s))"
    using nr by (simp add: newTaskRecord_def)
  note del = deleteTask_not_recurring[OF i nr', of e']
  show "fst (deleteTask e' ?N ?s') = Inr True"
    by (simp add: del)
  have "map id_task (tasks (snd (deleteTask e' ?N ?s')))
          = take (length (tasks s)) (map id_task (tasks ?s'))
            @ drop (Suc (length (tasks s))) (map id_task (tasks ?s'))"
    by (simp add: del updateTaskStatuses_def removeDependencies_def comp_def
        take_map drop_map)
  also have "\<dots> = map id_task (tasks s)"
    by (simp only: ids) simp
  finally show "map id_task (tasks (snd (deleteTask e' ?N ?s'))) = map id_task (tasks s)" .
qed

subsection \<open>Completing a dependency\<close>

lemma buildUpdatedTask_completed:
  "u_status u = Some COMPLETED \<Longrightarrow> status (buildUpdatedTask e t u) = COMPLETED"
  by (simp add: buildUpdatedTask_def Let_def mergeUpdates_def handleStatusChange_def)

lemma buildUpdatedTask_dependencies:
  "u_dependencies u = None \<Longrightarrow> dependencies (buildUpdatedTask e t u) = dependencies t"
  by (simp add: buildUpdatedTask_def Let_def mergeUpdates_def handleStatusChange_def
      split: option.splits)

lemma completing_update:
  assumes g: "getTask (tasks s) taskId = Some task"
    and gD: "getTask (tasks s) depId = Some depTask"
    and others: "\<forall>d \<in> set (dependencies task). d \<noteq> depId \<longrightarrow>
                  (\<exists>t. getTask (tasks s) d = Some t \<and> status t = COMPLETED)"
    and u: "u_status u = Some COMPLETED" "u_dependencies u = None"
  shows "(\<exists>t'. fst (updateTask e depId u s) = Inr t')
       \<and> canStartTask (tasks (snd (updateTask e depId u s))) taskId"
proof -
  let ?ts = "tasks s"
  from gD obtain i where i: "findIndex (\<lambda>t. id_task t = depId) ?ts = Some i" "depTask = ?ts ! i"
    by (auto simp: getTask_findIndex)
  from findIndex_Some[OF i(1)] have il: "i < length ?ts" and idi: "id_task (?ts ! i) = depId"
    by auto
  define t where "t = buildUpdatedTask e (?ts ! i) u"
  define ts' where "ts' = updateTaskStatuses (now e) (?ts[i := t])"
  have upd: "updateTask e depId u s = (Inr (markOverdue (now e) t), s\<lparr>tasks := ts'\<rparr>)"
    by (simp add: updateTask_no_dependencies[OF i(1) u(2)] ts'_def t_def)
  have t_id: "id_task t = depId" and t_st: "status t = COMPLETED"
    and t_deps: "dependencies t = dependencies (?ts ! i)"
    using idi by (simp_all add: t_def buildUpdatedTask_completed[OF u(1)]
        buildUpdatedTask_dependencies[OF u(2)])
  have ids: "map id_task ts' = map id_task ?ts"
  proof -
    have "map id_task (?ts[i := t]) = map id_task ?ts"
      using il t_id idi by (simp add: map_update list_update_same_conv)
    then show ?thesis by (simp add: ts'_def updateTaskStatuses_def comp_def)
  qed
  have nth: "\<And>j. j < length ?ts \<Longrightarrow>
               ts' ! j = markOverdue (now e) (if j = i then t else ?ts ! j)"
    by (simp add: ts'_def updateTaskStatuses_def nth_list_update)
  from getTask_pointwise[OF ids g] obtain k where
    k: "k < length ?ts" "?ts ! k = task" "getTask ts' taskId = Some (ts' ! k)" by auto
  have deps_k: "dependencies (ts' ! k) = dependencies task"
    using nth[OF k(1)] k(2) t_deps by (cases "k = i") auto
  have "\<exists>t. getTask ts' d = Some t \<and> status t = COMPLETED"
    if d: "d \<in> set (dependencies task)" for d
  proof (cases "d = depId")
    case True
    from findIndex_same_ids[OF ids, of depId] i(1)
    have "getTask ts' depId = Some (ts' ! i)" by (simp add: getTask_findIndex)
    with nth[OF il] t_st True show ?thesis by simp
  next
    case False
    with others d obtain t0 where t0: "getTask ?ts d = Some t0" "status t0 = COMPLETED" by auto
    from getTask_pointwise[OF ids t0(1)] obtain j where
      j: "j < length ?ts" "?ts ! j = t0" "id_task t0 = d" "getTask ts' d = Some (ts' ! j)" by auto
    from j(2,3) idi False have "j \<noteq> i" by auto
    with nth[OF j(1)] j(2) t0(2) j(4) show ?thesis by simp
  qed
  then have "canStartTask ts' taskId"
    using k(3) deps_k by (simp add: canStartTask_iff)
  with upd show ?thesis by simp
qed

lemma updateTaskProgress_100:
  assumes "getTask (tasks s) depId = Some depTask" and "status depTask \<noteq> COMPLETED"
  shows "updateTaskProgress e depId 100 hours s
           = updateTask e depId (progressUpdates e depTask 100 hours) s"
    and "u_status (progressUpdates e depTask 100 hours) = Some COMPLETED"
    and "u_dependencies (progressUpdates e depTask 100 hours) = None"
  using assms
  by (simp_all add: updateTaskProgress_def progressUpdates_fields)

subsection \<open>The graph invariant\<close>

lemma wellFormed_edges_iff:
  "wellFormed ts \<longleftrightarrow>
     distinct (map fst (map edges ts))
     \<and> (\<forall>x \<in> set (map edges ts). \<forall>y \<in> set (map edges ts).
           (fst y \<in> fst (snd x)) = (fst x \<in> snd (snd y)))
     \<and> (\<forall>x \<in> set (map edges ts).
           fst (snd x) \<subseteq> fst ` set (map edges ts) \<and> snd (snd x) \<subseteq> fst ` set (map edges ts))
     \<and> (\<forall>x \<in> set (map edges ts). fst x \<notin> fst (snd x))"
proof -
  have ids: "fst ` set (map edges ts) = id_task ` set ts"
    by (force simp: edges_def)
  have d: "map fst (map edges ts) = map id_task ts"
    by (simp add: edges_def comp_def)
  show ?thesis
    unfolding wellFormed_def symmetric_def noDangling_def noSelfEdge_def d ids
    by (simp add: edges_def)
qed

lemma wellFormed_cong:
  "map edges ts' = map edges ts \<Longrightarrow> wellFormed ts' = wellFormed ts"
  by (simp only: wellFormed_edges_iff)

lemma edges_markOverdue [simp]: "edges (markOverdue n t) = edges t"
  by (simp add: edges_def)

lemma wellFormed_updateTaskStatuses [simp]:
  "wellFormed (updateTaskStatuses n ts) = wellFormed ts"
  by (rule wellFormed_cong) (simp add: updateTaskStatuses_def comp_def)

lemma mutateTask_map:
  "distinct (map id_task ts) \<Longrightarrow>
   mutateTask x f ts = map (\<lambda>t. if id_task t = x then f t else t) ts"
proof (induction ts)
  case Nil
  then show ?case by simp
next
  case (Cons t ts)
  show ?case
  proof (cases "id_task t = x")
    case True
    from Cons.prems have "id_task t \<notin> id_task ` set ts" by simp
    with True have "\<forall>u \<in> set ts. id_task u \<noteq> x" by (metis imageI)
    then have "map (\<lambda>t. if id_task t = x then f t else t) ts = ts"
      by (induction ts) auto
    with True show ?thesis by simp
  next
    case False
    with Cons show ?thesis by simp
  qed
qed

lemma wellFormedI:
  assumes "distinct (map id_task ts)"
    and "\<And>a b. a \<in> set ts \<Longrightarrow> b \<in> set ts \<Longrightarrow>
           (id_task b \<in> set (dependencies a)) = (id_task a \<in> set (dependents b))"
    and "\<And>a. a \<in> set ts \<Longrightarrow> set (dependencies a) \<subseteq> id_task ` set ts"
    and "\<And>a. a \<in> set ts \<Longrightarrow> set (dependents a) \<subseteq> id_task ` set ts"
    and "\<And>a. a \<in> set ts \<Longrightarrow> id_task a \<notin> set (dependencies a)"
  shows "wellFormed ts"
  using assms unfolding wellFormed_def symmetric_def noDangling_def noSelfEdge_def by blast

lemma wellFormedD:
  assumes "wellFormed ts"
  shows "distinct (map id_task ts)"
    and "\<And>a b. a \<in> set ts \<Longrightarrow> b \<in> set ts \<Longrightarrow>
           (id_task b \<in> set (dependencies a)) = (id_task a \<in> set (dependents b))"
    and "\<And>a. a \<in> set ts \<Longrightarrow> set (dependencies a) \<subseteq> id_task ` set ts"
    and "\<And>a. a \<in> set ts \<Longrightarrow> set (dependents a) \<subseteq> id_task ` set ts"
    and "\<And>a. a \<in> set ts \<Longrightarrow> id_task a \<notin> set (dependencies a)"
  using assms unfolding wellFormed_def symmetric_def noDangling_def noSelfEdge_def by blast+

lemma wellFormed_map:
  assumes wf: "wellFormed ts"
    and idh: "\<And>t. id_task (h t) = id_task t"
    and sym: "\<And>a b. a \<in> set ts \<Longrightarrow> b \<in> set ts \<Longrightarrow>
           (id_task b \<in> set (dependencies (h a))) = (id_task a \<in> set (dependents (h b)))"
    and d1: "\<And>a. a \<in> set ts \<Longrightarrow> set (dependencies (h a)) \<subseteq> id_task ` set ts"
    and d2: "\<And>a. a \<in> set ts \<Longrightarrow> set (dependents (h a)) \<subseteq> id_task ` set ts"
    and ns: "\<And>a. a \<in> set ts \<Longrightarrow> id_task a \<notin> set (dependencies (h a))"
  shows "wellFormed (map h ts)"
proof (rule wellFormedI)
  have ids: "map id_task (map h ts) = map id_task ts" by (simp add: idh comp_def)
  show "distinct (map id_task (map h ts))"
    using wellFormedD(1)[OF wf] by (simp only: ids)
  have img: "id_task ` set (map h ts) = id_task ` set ts"
    by (simp add: image_image idh)
  fix a assume "a \<in> set (map h ts)"
  then obtain a0 where a0: "a0 \<in> set ts" "a = h a0" by auto
  show "set (dependencies a) \<subseteq> id_task ` set (map h ts)"
    using d1[OF a0(1)] by (simp only: img a0(2))
  show "set (dependents a) \<subseteq> id_task ` set (map h ts)"
    using d2[OF a0(1)] by (simp only: img a0(2))
  show "id_task a \<notin> set (dependencies a)"
    using ns[OF a0(1)] by (simp add: a0(2) idh)
  fix b assume "b \<in> set (map h ts)"
  then obtain b0 where b0: "b0 \<in> set ts" "b = h b0" by auto
  show "(id_task b \<in> set (dependencies a)) = (id_task a \<in> set (dependents b))"
    using sym[OF a0(1) b0(1)] by (simp add: a0(2) b0(2) idh)
qed

lemma getTask_mem: "getTask ts x = Some t \<Longrightarrow> x \<in> id_task ` set ts"
  by (auto simp: getTask_def find_Some_iff)

lemma ids_mutateTask:
  "(\<And>t. id_task (f t) = id_task t) \<Longrightarrow> map id_task (mutateTask x f ts) = map id_task ts"
  by (induction ts) auto

lemma mutateTask_twice_map:
  assumes "distinct (map id_task ts)" and "\<And>t. id_task (f t) = id_task t"
  shows "mutateTask y g (mutateTask x f ts)
           = map (\<lambda>t. if id_task t = y then g (if id_task t = x then f t else t)
                       else if id_task t = x then f t else t) ts"
proof -
  have d: "distinct (map id_task (mutateTask x f ts))"
    using assms by (simp add: ids_mutateTask)
  have "mutateTask y g (mutateTask x f ts)
          = map (\<lambda>t. if id_task t = y then g t else t) (mutateTask x f ts)"
    by (rule mutateTask_map[OF d])
  also have "\<dots> = map (\<lambda>t. if id_task t = y then g t else t)
                      (map (\<lambda>t. if id_task t = x then f t else t) ts)"
    by (simp only: mutateTask_map[OF assms(1)])
  also have "\<dots> = map (\<lambda>t. if id_task t = y then g (if id_task t = x then f t else t)
                       else if id_task t = x then f t else t) ts"
    by (simp add: comp_def assms(2))
  finally show ?thesis .
qed

lemma addEdgeTo_simps [simp]:
  "id_task (addEdgeTo e a b t) = id_task t"
  "set (dependencies (addEdgeTo e a b t))
     = (if id_task t = a then insert b (set (dependencies t)) else set (dependencies t))"
  "set (dependents (addEdgeTo e a b t))
     = (if id_task t = b then insert a (set (dependents t)) else set (dependents t))"
  by (simp_all add: addEdgeTo_def)

lemma dropEdgeFrom_simps [simp]:
  "id_task (dropEdgeFrom e a b t) = id_task t"
  "set (dependencies (dropEdgeFrom e a b t))
     = (if id_task t = a then set (dependencies t) - {b} else set (dependencies t))"
  "set (dependents (dropEdgeFrom e a b t))
     = (if id_task t = b then set (dependents t) - {a} else set (dependents t))"
  by (simp_all add: dropEdgeFrom_def)

lemma addTaskDependency_Inr:
  assumes "addTaskDependency e a b s = (Inr r, s')" and "distinct (map id_task (tasks s))"
  shows "a \<in> id_task ` set (tasks s)" "b \<in> id_task ` set (tasks s)" "a \<noteq> b"
    "tasks s' = map (addEdgeTo e a b) (tasks s)"
    "recurringTasks s' = recurringTasks s"
proof -
  from assms(1) obtain t1 t2 where
    g1: "getTask (tasks s) a = Some t1" and g2: "getTask (tasks s) b = Some t2"
    and nc: "\<not> wouldCreateCircularDependency (tasks s) a b []"
    and s': "s' = saveTasks e (s\<lparr>tasks := mutateTask b (pushDependent a)
                                   (mutateTask a (pushDependency b) (tasks s))\<rparr>)"
    by (auto simp: addTaskDependency_def split: option.splits if_splits)
  from nc show "a \<noteq> b"
    using wouldCreate_self[of "tasks s" a "[]"] by auto
  show "a \<in> id_task ` set (tasks s)" "b \<in> id_task ` set (tasks s)"
    using getTask_mem[OF g1] getTask_mem[OF g2] by simp_all
  show "tasks s' = map (addEdgeTo e a b) (tasks s)"
    by (simp add: s' saveTasks_def updateTaskStatuses_def mutateTask_twice_map[OF assms(2)]
        addEdgeTo_def comp_def)
  show "recurringTasks s' = recurringTasks s"
    by (simp add: s' saveTasks_def)
qed

lemma addTaskDependency_Inl:
  "addTaskDependency e a b s = (Inl err, s') \<Longrightarrow> s' = s"
  by (auto simp: addTaskDependency_def split: option.splits if_splits)

lemma removeTaskDependency_map:
  assumes "distinct (map id_task (tasks s))"
  shows "tasks (removeTaskDependency e a b s) = map (dropEdgeFrom e a b) (tasks s)"
  by (simp add: removeTaskDependency_def saveTasks_def updateTaskStatuses_def
      mutateTask_twice_map[OF assms] dropEdgeFrom_def comp_def)

lemma wellFormed_addTaskDependency:
  assumes wf: "wellFormed (tasks s)"
  shows "wellFormed (tasks (snd (addTaskDependency e a b s)))"
proof (cases "addTaskDependency e a b s")
  case (Pair r s')
  show ?thesis
  proof (cases r)
    case (Inl err)
    with Pair addTaskDependency_Inl[of e a b s err s'] wf show ?thesis by simp
  next
    case (Inr v)
    note d = wellFormedD[OF wf]
    note h = addTaskDependency_Inr[OF Pair[unfolded Inr] d(1)]
    have "wellFormed (map (addEdgeTo e a b) (tasks s))"
    proof (rule wellFormed_map[OF wf])
      fix x y assume "x \<in> set (tasks s)" "y \<in> set (tasks s)"
      from d(2)[OF this] h(3)
      show "(id_task y \<in> set (dependencies (addEdgeTo e a b x)))
          = (id_task x \<in> set (dependents (addEdgeTo e a b y)))"
        by auto
    next
      fix x assume x: "x \<in> set (tasks s)"
      from d(3)[OF x] h(2)
      show "set (dependencies (addEdgeTo e a b x)) \<subseteq> id_task ` set (tasks s)" by auto
      from d(4)[OF x] h(1)
      show "set (dependents (addEdgeTo e a b x)) \<subseteq> id_task ` set (tasks s)" by auto
      from d(5)[OF x] h(3)
      show "id_task x \<notin> set (dependencies (addEdgeTo e a b x))" by auto
    qed simp
    with Pair Inr h(4) show ?thesis by simp
  qed
qed

lemma wellFormed_removeTaskDependency:
  assumes wf: "wellFormed (tasks s)"
  shows "wellFormed (tasks (removeTaskDependency e a b s))"
proof -
  note d = wellFormedD[OF wf]
  have "wellFormed (map (dropEdgeFrom e a b) (tasks s))"
  proof (rule wellFormed_map[OF wf])
    fix x y assume "x \<in> set (tasks s)" "y \<in> set (tasks s)"
    from d(2)[OF this]
    show "(id_task y \<in> set (dependencies (dropEdgeFrom e a b x)))
        = (id_task x \<in> set (dependents (dropEdgeFrom e a b y)))"
      by auto
  next
    fix x assume x: "x \<in> set (tasks s)"
    from d(3)[OF x]
    show "set (dependencies (dropEdgeFrom e a b x)) \<subseteq> id_task ` set (tasks s)" by auto
    from d(4)[OF x]
    show "set (dependents (dropEdgeFrom e a b x)) \<subseteq> id_task ` set (tasks s)" by auto
    from d(5)[OF x]
    show "id_task x \<notin> set (dependencies (dropEdgeFrom e a b x))" by auto
  qed simp
  then show ?thesis by (simp add: removeTaskDependency_map[OF d(1)])
qed

lemma wellFormed_removeOldDependencies:
  "wellFormed (tasks s) \<Longrightarrow> wellFormed (tasks (removeOldDependencies e a old s))"
  unfolding removeOldDependencies_def
  by (induction old arbitrary: s) (auto simp: wellFormed_removeTaskDependency)

lemma wellFormed_addNewDependencies:
  "wellFormed (tasks s) \<Longrightarrow> wellFormed (tasks (snd (addNewDependencies e a new s)))"
proof (induction new arbitrary: s)
  case Nil
  then show ?case by simp
next
  case (Cons d new)
  obtain r s' where r: "addTaskDependency e a d s = (r, s')" by (cases "addTaskDependency e a d s")
  with wellFormed_addTaskDependency[OF Cons.prems, of e a d] have "wellFormed (tasks s')" by simp
  with Cons.IH[of s'] r show ?case by (cases r) auto
qed

lemma wellFormed_updateTaskDependencies:
  "wellFormed (tasks s) \<Longrightarrow> wellFormed (tasks (snd (updateTaskDependencies e a new s)))"
  by (simp add: updateTaskDependencies_def wellFormed_removeOldDependencies
      wellFormed_addNewDependencies split: option.splits)

lemma edges_eq_iff:
  "edges u = edges t \<longleftrightarrow>
     id_task u = id_task t \<and> set (dependencies u) = set (dependencies t)
     \<and> set (dependents u) = set (dependents t)"
  by (auto simp: edges_def)

lemma map_edges_update:
  "edges u = edges (ts ! i) \<Longrightarrow> map edges (ts[i := u]) = map edges ts"
  by (metis list_update_id map_update)

lemma wellFormed_removed:
  assumes wf: "wellFormed ts" and i: "i < length ts" and x: "id_task (ts ! i) = x"
  shows "wellFormed (removeDependencies x (take i ts @ drop (Suc i) ts))"
proof -
  note d = wellFormedD[OF wf]
  let ?rest = "take i ts @ drop (Suc i) ts"
  let ?h = "\<lambda>t. dropDependent x (dropDependency x t)"
  have ids: "map id_task ts = map id_task (take i ts) @ x # map id_task (drop (Suc i) ts)"
    using i x by (metis id_take_nth_drop list.simps(9) map_append)
  have sub: "set ?rest \<subseteq> set ts"
    by (auto dest: in_set_takeD in_set_dropD)
  have nx: "id_task t \<noteq> x" if "t \<in> set ?rest" for t
  proof -
    from d(1) have "distinct (map id_task (take i ts) @ x # map id_task (drop (Suc i) ts))"
      by (simp only: ids)
    then have "x \<notin> set (map id_task (take i ts))" "x \<notin> set (map id_task (drop (Suc i) ts))"
      by auto
    with that show ?thesis by auto
  qed
  have img: "id_task ` set ts = insert x (id_task ` set ?rest)"
  proof -
    have "set (map id_task ts) = insert x (set (map id_task ?rest))"
      by (subst ids) auto
    then show ?thesis by (simp add: image_Un)
  qed
  show ?thesis
    unfolding removeDependencies_def
  proof (rule wellFormedI)
    have "map id_task (map ?h ?rest) = take i (map id_task ts) @ drop (Suc i) (map id_task ts)"
      by (simp add: comp_def take_map drop_map)
    with d(1) show "distinct (map id_task (map ?h ?rest))"
      by (simp only: distinct_remove_nth)
  next
    fix a assume "a \<in> set (map ?h ?rest)"
    then obtain a0 where a0: "a0 \<in> set ?rest" "a = ?h a0" by auto
    have a0ts: "a0 \<in> set ts" using a0(1) sub by blast
    have "map id_task (map ?h ?rest) = map id_task ?rest"
      by (simp add: comp_def)
    from arg_cong[OF this, of set]
    have im2: "id_task ` set (map ?h ?rest) = id_task ` set ?rest"
      by (simp only: set_map)
    from d(3)[OF a0ts] show "set (dependencies a) \<subseteq> id_task ` set (map ?h ?rest)"
      unfolding im2 img by (auto simp: a0(2))
    from d(4)[OF a0ts] show "set (dependents a) \<subseteq> id_task ` set (map ?h ?rest)"
      unfolding im2 img by (auto simp: a0(2))
    from d(5)[OF a0ts] show "id_task a \<notin> set (dependencies a)"
      by (simp add: a0(2))
    fix b assume "b \<in> set (map ?h ?rest)"
    then obtain b0 where b0: "b0 \<in> set ?rest" "b = ?h b0" by auto
    have b0ts: "b0 \<in> set ts" using b0(1) sub by blast
    from d(2)[OF a0ts b0ts] nx[OF a0(1)] nx[OF b0(1)]
    show "(id_task b \<in> set (dependencies a)) = (id_task a \<in> set (dependents b))"
      by (simp add: a0(2) b0(2))
  qed
qed

lemma wellFormed_deleteTask:
  assumes wf: "wellFormed (tasks s)" and ok: "fst (deleteTask e x s) \<noteq> Inl TypeError"
  shows "wellFormed (tasks (snd (deleteTask e x s)))"
proof (cases "findIndex (\<lambda>t. id_task t = x) (tasks s)")
  case None
  with wf show ?thesis by (simp add: deleteTask_def)
next
  case (Some i)
  from ok Some have nr: "\<not> isRecurring (tasks s ! i)"
    by (auto simp: deleteTask_def Let_def)
  from findIndex_Some[OF Some] have "i < length (tasks s)" "id_task (tasks s ! i) = x" by auto
  from wellFormed_removed[OF wf this] show ?thesis
    by (simp add: deleteTask_not_recurring[OF Some nr])
qed

lemma removeOld_position:
  assumes "distinct (map id_task (tasks s))" "i < length (tasks s)" "id_task (tasks s ! i) = x"
  shows "set (dependencies (tasks (removeOldDependencies e x old s) ! i))
           = set (dependencies (tasks s ! i)) - set old
       \<and> (x \<notin> set old \<longrightarrow>
            set (dependents (tasks (removeOldDependencies e x old s) ! i))
              = set (dependents (tasks s ! i)))"
  using assms
proof (induction old arbitrary: s)
  case Nil
  then show ?case by (simp add: removeOldDependencies_def)
next
  case (Cons d old)
  let ?s' = "removeTaskDependency e x d s"
  have ts': "tasks ?s' = map (dropEdgeFrom e x d) (tasks s)"
    by (rule removeTaskDependency_map[OF Cons.prems(1)])
  have d': "distinct (map id_task (tasks ?s'))"
    using Cons.prems(1) by (simp add: ts' comp_def)
  have i': "i < length (tasks ?s')" "id_task (tasks ?s' ! i) = x"
    using Cons.prems(2,3) by (simp_all add: ts')
  have unfold: "removeOldDependencies e x (d # old) s = removeOldDependencies e x old ?s'"
    by (simp add: removeOldDependencies_def)
  from Cons.IH[OF d' i'] Cons.prems(2,3) show ?case
    unfolding unfold by (auto simp: ts')
qed

lemma removeOld_distinct:
  "distinct (map id_task (tasks s)) \<Longrightarrow>
   map id_task (tasks (removeOldDependencies e x old s)) = map id_task (tasks s)"
  by (rule ids_of_core) simp

lemma addNew_position:
  assumes "distinct (map id_task (tasks s))" "i < length (tasks s)" "id_task (tasks s ! i) = x"
    and "addNewDependencies e x new s = (Inr v, s')"
  shows "set (dependencies (tasks s' ! i)) = set (dependencies (tasks s ! i)) \<union> set new
       \<and> set (dependents (tasks s' ! i)) = set (dependents (tasks s ! i))"
  using assms
proof (induction new arbitrary: s)
  case Nil
  then show ?case by simp
next
  case (Cons d new)
  from Cons.prems(4) obtain r s1 where
    a: "addTaskDependency e x d s = (Inr r, s1)"
    and rest: "addNewDependencies e x new s1 = (Inr v, s')"
    by (auto split: prod.splits sum.splits)
  note h = addTaskDependency_Inr[OF a Cons.prems(1)]
  have d1: "distinct (map id_task (tasks s1))"
    using Cons.prems(1) by (simp add: h(4) comp_def)
  have i1: "i < length (tasks s1)" "id_task (tasks s1 ! i) = x"
    using Cons.prems(2,3) by (simp_all add: h(4))
  from Cons.IH[OF d1 i1 rest] Cons.prems(2,3) h(3) show ?case
    by (auto simp: h(4))
qed

lemma edges_buildUpdatedTask:
  "edges (buildUpdatedTask e t u)
     = (id_task t,
        (case u_dependencies u of None \<Rightarrow> set (dependencies t) | Some new \<Rightarrow> set new),
        set (dependents t))"
  by (simp add: edges_def buildUpdatedTask_def Let_def mergeUpdates_def handleStatusChange_def
      split: option.splits)

lemma wellFormed_updateTask:
  assumes wf: "wellFormed (tasks s)"
  shows "wellFormed (tasks (snd (updateTask e x u s)))"
proof (cases "findIndex (\<lambda>t. id_task t = x) (tasks s)")
  case None
  with wf show ?thesis by (simp add: updateTask_def)
next
  case fi: (Some i)
  note d = wellFormedD[OF wf]
  from findIndex_Some[OF fi] have il: "i < length (tasks s)" and idi: "id_task (tasks s ! i) = x"
    by auto
  define old where "old = tasks s ! i"
  define t where "t = buildUpdatedTask e old u"
  show ?thesis
  proof (cases "u_dependencies u")
    case None
    have "edges t = edges (tasks s ! i)"
      by (simp only: t_def old_def edges_buildUpdatedTask None) (simp add: edges_def)
    then have "map edges ((tasks s)[i := t]) = map edges (tasks s)"
      by (rule map_edges_update)
    then have "wellFormed ((tasks s)[i := t]) = wellFormed (tasks s)"
      by (rule wellFormed_cong)
    with wf show ?thesis
      by (simp add: updateTask_no_dependencies[OF fi None] t_def old_def)
  next
    case (Some new)
    obtain r s1 where w: "updateTaskDependencies e x new s = (r, s1)"
      by (cases "updateTaskDependencies e x new s")
    from wellFormed_updateTaskDependencies[OF wf, of e x new] w
    have wf1: "wellFormed (tasks s1)" by simp
    show ?thesis
    proof (cases r)
      case (Inl err)
      with wf1 w fi Some show ?thesis
        by (simp add: updateTask_def Let_def)
    next
      case (Inr v)
      have g: "getTask (tasks s) x = Some old"
        using fi by (simp add: getTask_findIndex old_def)
      let ?s0 = "removeOldDependencies e x (dependencies old) s"
      from w g Inr have an: "addNewDependencies e x new ?s0 = (Inr v, s1)"
        by (simp add: updateTaskDependencies_def)
      have old_in: "old \<in> set (tasks s)" using il by (simp add: old_def)
      have noself: "x \<notin> set (dependencies old)"
        using d(5)[OF old_in] idi by (simp add: old_def)
      from removeOld_position[OF d(1) il idi, of e "dependencies old"] noself
      have r0: "set (dependencies (tasks ?s0 ! i)) = {}"
          "set (dependents (tasks ?s0 ! i)) = set (dependents old)"
        by (simp_all add: old_def)
      have ids0: "map id_task (tasks ?s0) = map id_task (tasks s)"
        by (rule removeOld_distinct[OF d(1)])
      have d0: "distinct (map id_task (tasks ?s0))" using d(1) by (simp only: ids0)
      have i0: "i < length (tasks ?s0)" "id_task (tasks ?s0 ! i) = x"
        using arg_cong[OF ids0, of length] arg_cong[OF ids0, of "\<lambda>l. l ! i"] il idi
        by simp_all
      from addNew_position[OF d0 i0 an] r0
      have r1: "set (dependencies (tasks s1 ! i)) = set new"
          "set (dependents (tasks s1 ! i)) = set (dependents old)"
        by simp_all
      have ids1: "map id_task (tasks s1) = map id_task (tasks s)"
        using ids_updateTaskDependencies[of e x new s] w by simp
      have i1: "id_task (tasks s1 ! i) = x"
        using arg_cong[OF ids1, of "\<lambda>l. l ! i"] arg_cong[OF ids1, of length] il idi by simp
      have "edges t = edges (tasks s1 ! i)"
        using r1 i1 idi
        by (simp only: t_def edges_buildUpdatedTask Some) (simp add: edges_def old_def)
      then have "map edges ((tasks s1)[i := t]) = map edges (tasks s1)"
        by (rule map_edges_update)
      then have "wellFormed ((tasks s1)[i := t]) = wellFormed (tasks s1)"
        by (rule wellFormed_cong)
      with wf1 show ?thesis
        using fi Some w Inr
        by (simp add: updateTask_def Let_def saveTasks_def t_def old_def)
    qed
  qed
qed

lemma wellFormed_snoc_isolated:
  assumes wf: "wellFormed ts" and fresh: "id_task n \<notin> id_task ` set ts"
    and iso: "dependencies n = []" "dependents n = []"
  shows "wellFormed (ts @ [n])"
proof (rule wellFormedI)
  note d = wellFormedD[OF wf]
  show "distinct (map id_task (ts @ [n]))" using d(1) fresh by simp
  fix a assume a: "a \<in> set (ts @ [n])"
  show "set (dependencies a) \<subseteq> id_task ` set (ts @ [n])"
    using a d(3) iso by auto
  show "set (dependents a) \<subseteq> id_task ` set (ts @ [n])"
    using a d(4) iso by auto
  show "id_task a \<notin> set (dependencies a)"
    using a d(5) iso by auto
  fix b assume b: "b \<in> set (ts @ [n])"
  show "(id_task b \<in> set (dependencies a)) = (id_task a \<in> set (dependents b))"
  proof (cases "a = n")
    case True
    note an = this
    show ?thesis
    proof (cases "b = n")
      case True
      with an iso show ?thesis by simp
    next
      case False
      with b have bt: "b \<in> set ts" by simp
      from d(4)[OF bt] fresh have "id_task n \<notin> set (dependents b)" by auto
      with an iso show ?thesis by simp
    qed
  next
    case False
    with a have at: "a \<in> set ts" by simp
    show ?thesis
    proof (cases "b = n")
      case True
      from d(3)[OF at] fresh have "id_task n \<notin> set (dependencies a)" by auto
      with True iso show ?thesis by simp
    next
      case False
      with b have "b \<in> set ts" by simp
      from d(2)[OF at this] show ?thesis .
    qed
  qed
qed

lemma pending_wellFormed:
  "pending N ts \<Longrightarrow> set (dependencies (last ts)) = {} \<Longrightarrow> wellFormed ts"
  unfolding pending_def by (auto intro!: wellFormed_snoc_isolated)

lemma pending_distinct: "pending N ts \<Longrightarrow> distinct (map id_task ts)"
  unfolding pending_def using wellFormedD(1) by auto

lemma pending_remove:
  assumes p: "pending N (tasks s)"
  shows "pending N (tasks (removeTaskDependency e N d s))
       \<and> set (dependencies (last (tasks (removeTaskDependency e N d s))))
           = set (dependencies (last (tasks s))) - {d}"
proof -
  from p obtain ts0 n where ts: "tasks s = ts0 @ [n]" and wf: "wellFormed ts0"
    and fresh: "N \<notin> id_task ` set ts0" and n: "id_task n = N" "dependents n = []"
    unfolding pending_def by blast
  note d0 = wellFormedD[OF wf]
  have ts': "tasks (removeTaskDependency e N d s)
               = map (dropEdgeFrom e N d) ts0 @ [dropEdgeFrom e N d n]"
    using removeTaskDependency_map[OF pending_distinct[OF p], of e N d] by (simp add: ts)
  have same: "edges (dropEdgeFrom e N d t) = edges t" if "t \<in> set ts0" for t
  proof -
    from that fresh have "id_task t \<noteq> N" by auto
    moreover from d0(4)[OF that] fresh have "N \<notin> set (dependents t)" by auto
    ultimately show ?thesis by (auto simp: edges_eq_iff)
  qed
  then have "map edges (map (dropEdgeFrom e N d) ts0) = map edges ts0"
    by (simp add: comp_def)
  then have wf': "wellFormed (map (dropEdgeFrom e N d) ts0)"
    using wf wellFormed_cong by blast
  have fresh': "N \<notin> id_task ` set (map (dropEdgeFrom e N d) ts0)"
    using fresh by (auto simp: image_image)
  have "set (dependents (dropEdgeFrom e N d n)) = {}"
    using n by simp
  then have dn: "dependents (dropEdgeFrom e N d n) = []"
    by (simp only: set_empty)
  have "pending N (tasks (removeTaskDependency e N d s))"
    unfolding pending_def ts' using wf' fresh' dn n(1) by auto
  moreover have "set (dependencies (last (tasks (removeTaskDependency e N d s))))
           = set (dependencies (last (tasks s))) - {d}"
    using n(1) by (simp add: ts' ts)
  ultimately show ?thesis by blast
qed

lemma pending_removeOld:
  "pending N (tasks s) \<Longrightarrow>
   pending N (tasks (removeOldDependencies e N ds s))
   \<and> set (dependencies (last (tasks (removeOldDependencies e N ds s))))
       = set (dependencies (last (tasks s))) - set ds"
proof (induction ds arbitrary: s)
  case Nil
  then show ?case by (simp add: removeOldDependencies_def)
next
  case (Cons d ds)
  have unfold: "removeOldDependencies e N (d # ds) s
                  = removeOldDependencies e N ds (removeTaskDependency e N d s)"
    by (simp add: removeOldDependencies_def)
  from pending_remove[OF Cons.prems, of e d] Cons.IH[of "removeTaskDependency e N d s"]
  show ?case unfolding unfold by auto
qed

lemma getTask_snoc_fresh:
  "N \<notin> id_task ` set ts0 \<Longrightarrow> id_task n = N \<Longrightarrow> getTask (ts0 @ [n]) N = Some n"
  by (induction ts0) (auto simp: getTask_def)

lemma tasks_createTask:
  "tasks (snd (createTask e d s)) =
     (let newTask = newTaskRecord e d (tasks s);
          s1 = saveTasks e (s\<lparr>tasks := tasks s @ [newTask]\<rparr>)
      in if dependencies newTask \<noteq> []
         then tasks (snd (updateTaskDependencies e (id_task newTask) (dependencies newTask) s1))
         else tasks s1)"
  by (simp add: createTask_cases Let_def split: sum.splits)

lemma wellFormed_createTask:
  assumes wf: "wellFormed (tasks s)"
    and small: "\<forall>t \<in> set (tasks s). id_task t < 2 ^ 53"
  shows "wellFormed (tasks (snd (createTask e d s)))"
proof -
  define newTask where "newTask = newTaskRecord e d (tasks s)"
  define N where "N = id_task newTask"
  define s1 where "s1 = saveTasks e (s\<lparr>tasks := tasks s @ [newTask]\<rparr>)"
  have Nid: "N = getNextTaskId (tasks s)" by (simp add: N_def newTask_def newTaskRecord_def)
  have fresh: "N \<notin> id_task ` set (tasks s)"
    using getNextTaskId_fresh[OF small] by (simp add: Nid)
  have ts1: "tasks s1 = updateTaskStatuses (now e) (tasks s) @ [markOverdue (now e) newTask]"
    by (simp add: s1_def saveTasks_def updateTaskStatuses_def)
  have fresh1: "N \<notin> id_task ` set (updateTaskStatuses (now e) (tasks s))"
    using fresh by (auto simp: updateTaskStatuses_def)
  have p1: "pending N (tasks s1)"
    unfolding pending_def ts1 using wf fresh1
    by (auto simp: N_def newTask_def newTaskRecord_def)
  have last1: "dependencies (last (tasks s1)) = dependencies newTask"
    by (simp add: ts1)
  show ?thesis
  proof (cases "dependencies newTask = []")
    case True
    with pending_wellFormed[OF p1] last1 have "wellFormed (tasks s1)" by simp
    with True show ?thesis
      by (simp add: tasks_createTask Let_def newTask_def[symmetric] s1_def[symmetric])
  next
    case False
    have g: "getTask (tasks s1) N = Some (markOverdue (now e) newTask)"
      unfolding ts1 by (rule getTask_snoc_fresh[OF fresh1]) (simp add: N_def)
    let ?s2 = "removeOldDependencies e N (dependencies newTask) s1"
    from pending_removeOld[OF p1, of e "dependencies newTask"] last1
    have "pending N (tasks ?s2)" "set (dependencies (last (tasks ?s2))) = {}" by simp_all
    then have "wellFormed (tasks ?s2)" by (rule pending_wellFormed)
    then have "wellFormed (tasks (snd (addNewDependencies e N (dependencies newTask) ?s2)))"
      by (rule wellFormed_addNewDependencies)
    then have "wellFormed (tasks (snd (updateTaskDependencies e N (dependencies newTask) s1)))"
      using g by (simp add: updateTaskDependencies_def)
    with False show ?thesis
      by (simp add: tasks_createTask Let_def newTask_def[symmetric] s1_def[symmetric]
          N_def[symmetric])
  qed
qed

lemma wellFormed_step:
  assumes "wellFormed (tasks s)"
    and "\<forall>t \<in> set (tasks s). id_task t < 2 ^ 53"
    and "case opn of DeleteTask taskId \<Rightarrow> fst (deleteTask e taskId s) \<noteq> Inl TypeError | _ \<Rightarrow> True"
  shows "wellFormed (tasks (step (e, opn) s))"
  using assms
  by (cases opn)
     (simp_all add: wellFormed_createTask wellFormed_updateTask wellFormed_deleteTask
        wellFormed_addTaskDependency wellFormed_removeTaskDependency)

lemma wellFormed_run:
  assumes "wellFormed (tasks s)"
    and "\<forall>t \<in> set (tasks s). id_task t \<le> B" and "0 \<le> B"
    and "B + int (length ops) \<le> 2 ^ 53"
    and "deletesComplete ops s"
  shows "wellFormed (tasks (run ops s))"
  using assms
proof (induction ops arbitrary: s B)
  case Nil
  then show ?case by (simp add: run_def)
next
  case (Cons eo ops)
  obtain e opn where eo: "eo = (e, opn)" by (cases eo)
  from Cons.prems have B: "B < 2 ^ 53" by simp
  with Cons.prems(2) have small: "\<forall>t \<in> set (tasks s). id_task t < 2 ^ 53" by fastforce
  from Cons.prems(1,5) small have wf: "wellFormed (tasks (step (e, opn) s))"
    by (intro wellFormed_step) (simp_all add: eo)
  have b: "\<forall>t \<in> set (tasks (step (e, opn) s)). id_task t \<le> B + 1"
    by (rule step_bound[OF Cons.prems(2,3) B])
  from Cons.prems have "0 \<le> B + 1" "B + 1 + int (length ops) \<le> 2 ^ 53"
    and "deletesComplete ops (step (e, opn) s)" by (simp_all add: eo)
  from Cons.IH[OF wf b this] show ?case
    by (simp add: run_def eo)
qed

lemma wellFormed_empty: "wellFormed (tasks emptyState)"
  by (simp add: emptyState_def wellFormed_def symmetric_def noDangling_def noSelfEdge_def)

lemma symmetric_run:
  assumes "deletesComplete ops emptyState" and "int (length ops) \<le> 2 ^ 53"
  shows "symmetric (tasks (run ops emptyState))"
proof -
  have "\<forall>t \<in> set (tasks emptyState). id_task t \<le> 0" by (simp add: emptyState_def)
  from wellFormed_run[OF wellFormed_empty this _ _ assms(1)] assms(2)
  show ?thesis by (simp add: wellFormed_def)
qed

subsection \<open>A creation that stops at a dependency\<close>

lemma markOverdue_idem: "markOverdue n (markOverdue n t) = markOverdue n t"
  by (simp add: markOverdue_def split: option.splits)

lemma markOverdue_dependencies_update:
  "markOverdue n (t\<lparr>dependencies := x\<rparr>) = (markOverdue n t)\<lparr>dependencies := x\<rparr>"
  by (simp add: markOverdue_def split: option.splits)

lemma markOverdue_dependents_update:
  "markOverdue n (t\<lparr>dependents := x\<rparr>) = (markOverdue n t)\<lparr>dependents := x\<rparr>"
  by (simp add: markOverdue_def split: option.splits)

lemma dropDependent_absent:
  assumes "N \<notin> set (dependents t)"
  shows "dropDependent N t = t"
proof -
  from assms have "filter (\<lambda>i. i \<noteq> N) (dependents t) = dependents t"
    by (auto simp: filter_id_conv)
  then show ?thesis by (simp add: dropDependent_def)
qed

lemma getTask_Some_mem: "getTask ts x = Some t \<Longrightarrow> t \<in> set ts \<and> id_task t = x"
  by (auto simp: getTask_def find_Some_iff)

lemma getTask_snoc:
  "getTask (ts @ [c]) x
     = (case getTask ts x of Some t \<Rightarrow> Some t
        | None \<Rightarrow> if id_task c = x then Some c else None)"
  by (induction ts) (auto simp: getTask_def)

lemma getTask_None_iff: "getTask ts x = None \<longleftrightarrow> x \<notin> id_task ` set ts"
  by (auto simp: getTask_def find_None_iff)

text \<open>The cycle check never looks up the task it is asked about.\<close>

lemma wouldCreate_cong:
  assumes "\<And>x. x \<noteq> a \<Longrightarrow>
             map_option dependencies (getTask ts' x) = map_option dependencies (getTask ts x)"
  shows "wouldCreateCircularDependency ts' a b vis = wouldCreateCircularDependency ts a b vis"
  using assms
proof (induction ts a b vis rule: wouldCreateCircularDependency.induct)
  case (1 ts taskId dependsOnId visited)
  show ?case
  proof (cases "dependsOnId \<in> set visited \<or> dependsOnId = taskId")
    case True
    then show ?thesis
      by (subst wouldCreateCircularDependency.simps, subst (2) wouldCreateCircularDependency.simps)
         auto
  next
    case False
    then have nv: "dependsOnId \<notin> set visited" and ne: "dependsOnId \<noteq> taskId" by simp_all
    note same = "1.prems"[OF ne]
    show ?thesis
    proof (cases "getTask ts dependsOnId")
      case None
      with same have "getTask ts' dependsOnId = None" by simp
      with None nv ne show ?thesis
        by (subst wouldCreateCircularDependency.simps, subst (2) wouldCreateCircularDependency.simps)
           simp
    next
      case (Some t)
      with same obtain t' where t': "getTask ts' dependsOnId = Some t'"
        and d: "dependencies t' = dependencies t" by auto
      have "wouldCreateCircularDependency ts' taskId depId (dependsOnId # visited)
              = wouldCreateCircularDependency ts taskId depId (dependsOnId # visited)"
        if "depId \<in> set (dependencies t)" for depId
        using "1.IH"[OF nv ne Some that] "1.prems" by blast
      then have "list_ex (\<lambda>depId. wouldCreateCircularDependency ts' taskId depId (dependsOnId # visited))
                   (dependencies t)
               = list_ex (\<lambda>depId. wouldCreateCircularDependency ts taskId depId (dependsOnId # visited))
                   (dependencies t)"
        by (simp add: list_ex_iff)
      with Some t' d nv ne show ?thesis
        by (subst wouldCreateCircularDependency.simps, subst (2) wouldCreateCircularDependency.simps)
           simp
    qed
  qed
qed

text \<open>In a store without cycle the check only fires when the task is reached.\<close>

lemma wouldCreate_reach:
  assumes "acyclic (dependsOn ts)" and "wouldCreateCircularDependency ts a b vis"
  shows "\<exists>x. (b, x) \<in> (dependsOn ts)\<^sup>* \<and> (x = a \<or> x \<in> set vis)"
  using assms
proof (induction ts a b vis rule: wouldCreateCircularDependency.induct)
  case (1 ts taskId dependsOnId visited)
  show ?case
  proof (cases "dependsOnId \<in> set visited \<or> dependsOnId = taskId")
    case True
    then show ?thesis by blast
  next
    case False
    then have nv: "dependsOnId \<notin> set visited" and ne: "dependsOnId \<noteq> taskId" by simp_all
    from "1.prems"(2) nv ne obtain t depId where
      t: "getTask ts dependsOnId = Some t" and dep: "depId \<in> set (dependencies t)"
      and w: "wouldCreateCircularDependency ts taskId depId (dependsOnId # visited)"
      by (subst (asm) wouldCreateCircularDependency.simps)
         (auto simp: list_ex_iff split: option.splits)
    from "1.IH"[OF nv ne t dep "1.prems"(1) w] obtain x where
      x: "(depId, x) \<in> (dependsOn ts)\<^sup>*" "x = taskId \<or> x \<in> set (dependsOnId # visited)"
      by blast
    from t dep have e: "(dependsOnId, depId) \<in> dependsOn ts"
      by (auto simp: dependsOn_def)
    have "x \<noteq> dependsOnId"
    proof
      assume "x = dependsOnId"
      with x(1) e have "(dependsOnId, dependsOnId) \<in> (dependsOn ts)\<^sup>+" by auto
      with "1.prems"(1) show False by (simp add: acyclic_def)
    qed
    with x e show ?thesis
      by (auto intro: converse_rtrancl_into_rtrancl)
  qed
qed

lemma wouldCreate_unreferenced:
  assumes acyc: "acyclic (dependsOn ts)"
    and unref: "\<forall>t \<in> set ts. N \<notin> set (dependencies t)" and ne: "p \<noteq> N"
  shows "\<not> wouldCreateCircularDependency ts N p []"
proof
  assume "wouldCreateCircularDependency ts N p []"
  from wouldCreate_reach[OF acyc this] have "(p, N) \<in> (dependsOn ts)\<^sup>*" by simp
  with ne obtain y where "(y, N) \<in> dependsOn ts"
    by (auto elim: rtranclE)
  then obtain t where "getTask ts y = Some t" "N \<in> set (dependencies t)"
    by (auto simp: dependsOn_def)
  with getTask_Some_mem[of ts y t] unref show False by blast
qed

lemma push_first_occurrences:
  "(if p \<in> set ks then rev (remdups (rev ks)) else rev (remdups (rev ks)) @ [p])
     = rev (remdups (rev (ks @ [p])))"
  by simp

lemma removeOld_wired:
  assumes dist: "distinct (map id_task ts)" and fresh: "N \<notin> id_task ` set ts"
    and nodep: "\<forall>t \<in> set ts. N \<notin> set (dependents t)"
    and c: "id_task c = N" "dependents c = []"
    and st: "tasks st = map (markOverdue n) (ts @ [c])" and n: "now e = n"
  shows "tasks (removeOldDependencies e N ds st)
           = map (markOverdue n) (ts @ [c\<lparr>dependencies := filter (\<lambda>i. i \<notin> set ds) (dependencies c)\<rparr>])"
  using c st
proof (induction ds arbitrary: c st)
  case Nil
  then show ?case by (simp add: removeOldDependencies_def)
next
  case (Cons d ds)
  let ?c' = "c\<lparr>dependencies := filter (\<lambda>i. i \<noteq> d) (dependencies c)\<rparr>"
  let ?st' = "removeTaskDependency e N d st"
  have unfold: "removeOldDependencies e N (d # ds) st = removeOldDependencies e N ds ?st'"
    by (simp add: removeOldDependencies_def)
  have d1: "distinct (map id_task (tasks st))"
    using dist fresh Cons.prems by (simp add: comp_def)
  have old: "dropEdgeFrom e N d (markOverdue n t) = markOverdue n t" if "t \<in> set ts" for t
  proof -
    from that fresh have "id_task t \<noteq> N" by auto
    moreover from that nodep have "N \<notin> set (dependents (markOverdue n t))" by simp
    ultimately show ?thesis
      by (simp add: dropEdgeFrom_def n dropDependent_absent markOverdue_idem)
  qed
  have new: "dropEdgeFrom e N d (markOverdue n c) = markOverdue n ?c'"
  proof -
    have "N \<notin> set (dependents (dropDependency d (markOverdue n c)))"
      using Cons.prems by (simp add: dropDependency_def)
    then show ?thesis
      using Cons.prems
      by (simp add: dropEdgeFrom_def n dropDependent_absent dropDependency_def
          markOverdue_dependencies_update markOverdue_idem)
  qed
  have "tasks ?st' = map (dropEdgeFrom e N d) (tasks st)"
    by (rule removeTaskDependency_map[OF d1])
  also have "\<dots> = map (markOverdue n) (ts @ [?c'])"
    using old new by (simp add: Cons.prems)
  finally have st': "tasks ?st' = map (markOverdue n) (ts @ [?c'])" .
  have "tasks (removeOldDependencies e N ds ?st')
          = map (markOverdue n)
              (ts @ [?c'\<lparr>dependencies := filter (\<lambda>i. i \<notin> set ds) (dependencies ?c')\<rparr>])"
    by (rule Cons.IH[OF _ _ st']) (simp_all add: Cons.prems)
  then show ?case
    unfolding unfold by (simp add: conj_commute)
qed


lemma ids_wired [simp]:
  "map id_task (wired n N ks ts new) = map id_task ts @ [id_task new]"
  by (simp add: wired_def comp_def)

lemma wired_Nil: "wired n N [] ts new = map (markOverdue n) (ts @ [new\<lparr>dependencies := []\<rparr>])"
  by (simp add: wired_def)

lemma getTask_wired:
  assumes "x \<noteq> id_task new"
  shows "map_option dependencies (getTask (wired n N ks ts new) x)
           = map_option dependencies (getTask ts x)"
proof -
  let ?h = "\<lambda>t. markOverdue n (if id_task t \<in> set ks then t\<lparr>dependents := dependents t @ [N]\<rparr> else t)"
  have w: "wired n N ks ts new
             = map ?h ts @ [markOverdue n (new\<lparr>dependencies := rev (remdups (rev ks))\<rparr>)]"
    by (simp add: wired_def comp_def)
  have "getTask (map ?h ts) x = map_option ?h (getTask ts x)"
    by (rule getTask_map) simp
  then show ?thesis
    using assms by (cases "getTask ts x") (auto simp: w getTask_snoc)
qed

lemma addTaskDependency_wired:
  assumes dist: "distinct (map id_task ts)" and fresh: "N \<notin> id_task ` set ts"
    and nodep: "\<forall>t \<in> set ts. N \<notin> set (dependents t)"
    and unref: "\<forall>t \<in> set ts. N \<notin> set (dependencies t)"
    and acyc: "acyclic (dependsOn ts)"
    and new: "id_task new = N"
    and p: "p \<in> id_task ` set ts"
    and st: "tasks st = wired n N ks ts new" and n: "now e = n"
  shows "addTaskDependency e N p st = (Inr True, st\<lparr>tasks := wired n N (ks @ [p]) ts new\<rparr>)"
proof -
  from p fresh have pN: "p \<noteq> N" by auto
  have ids: "map id_task (tasks st) = map id_task ts @ [N]"
    by (simp add: st new)
  have d1: "distinct (map id_task (tasks st))"
    using dist fresh by (simp add: ids)
  have "N \<in> id_task ` set (tasks st)" "p \<in> id_task ` set (tasks st)"
    using p arg_cong[OF ids, of set] by auto
  then obtain t1 t2 where g1: "getTask (tasks st) N = Some t1"
    and g2: "getTask (tasks st) p = Some t2"
    using getTask_None_iff[of "tasks st"] by (metis not_Some_eq)
  have "wouldCreateCircularDependency (tasks st) N p [] = wouldCreateCircularDependency ts N p []"
    unfolding st by (rule wouldCreate_cong) (simp add: getTask_wired new)
  with wouldCreate_unreferenced[OF acyc unref pN]
  have nc: "\<not> wouldCreateCircularDependency (tasks st) N p []" by simp
  define s' where "s' = saveTasks e (st\<lparr>tasks := mutateTask p (pushDependent N)
                                   (mutateTask N (pushDependency p) (tasks st))\<rparr>)"
  have r: "addTaskDependency e N p st = (Inr True, s')"
    using g1 g2 nc by (simp add: addTaskDependency_def s'_def)
  note h = addTaskDependency_Inr[OF r d1]
  have old: "addEdgeTo e N p
               (markOverdue n (if id_task t \<in> set ks then t\<lparr>dependents := dependents t @ [N]\<rparr> else t))
             = markOverdue n
                 (if id_task t \<in> set (ks @ [p]) then t\<lparr>dependents := dependents t @ [N]\<rparr> else t)"
    if "t \<in> set ts" for t
  proof -
    from that fresh have "id_task t \<noteq> N" by auto
    moreover from that nodep have "N \<notin> set (dependents t)" by simp
    ultimately show ?thesis
      by (simp add: addEdgeTo_def n pushDependent_def markOverdue_dependents_update
          markOverdue_idem)
  qed
  have newt: "addEdgeTo e N p (markOverdue n (new\<lparr>dependencies := rev (remdups (rev ks))\<rparr>))
              = markOverdue n (new\<lparr>dependencies := rev (remdups (rev (ks @ [p])))\<rparr>)"
    using pN new
    by (simp add: addEdgeTo_def n pushDependency_def markOverdue_dependencies_update
        markOverdue_idem)
  have "tasks s' = map (addEdgeTo e N p) (wired n N ks ts new)"
    using h(4) by (simp add: st)
  also have "\<dots> = wired n N (ks @ [p]) ts new"
    using old newt by (simp add: wired_def)
  finally have "tasks s' = wired n N (ks @ [p]) ts new" .
  with h(5) have "s' = st\<lparr>tasks := wired n N (ks @ [p]) ts new\<rparr>"
    by simp
  with r show ?thesis by simp
qed

lemma addNew_wired:
  assumes dist: "distinct (map id_task ts)" and fresh: "N \<notin> id_task ` set ts"
    and nodep: "\<forall>t \<in> set ts. N \<notin> set (dependents t)"
    and unref: "\<forall>t \<in> set ts. N \<notin> set (dependencies t)"
    and acyc: "acyclic (dependsOn ts)"
    and new: "id_task new = N" and n: "now e = n"
    and ks': "set ks' \<subseteq> id_task ` set ts"
    and st: "tasks st = wired n N ks ts new"
  shows "addNewDependencies e N (ks' @ rest) st
           = addNewDependencies e N rest (st\<lparr>tasks := wired n N (ks @ ks') ts new\<rparr>)"
  using ks' st
proof (induction ks' arbitrary: ks st)
  case Nil
  then have "st\<lparr>tasks := wired n N ks ts new\<rparr> = st" by simp
  then show ?case by simp
next
  case (Cons p ks')
  from Cons.prems have p: "p \<in> id_task ` set ts" and rest: "set ks' \<subseteq> id_task ` set ts"
    by simp_all
  let ?s' = "st\<lparr>tasks := wired n N (ks @ [p]) ts new\<rparr>"
  have a: "addTaskDependency e N p st = (Inr True, ?s')"
    by (rule addTaskDependency_wired[OF dist fresh nodep unref acyc new p Cons.prems(2) n])
  have "addNewDependencies e N (ks' @ rest) ?s'
          = addNewDependencies e N rest (?s'\<lparr>tasks := wired n N ((ks @ [p]) @ ks') ts new\<rparr>)"
    by (rule Cons.IH[OF rest]) simp
  with a show ?case by simp
qed

lemma addNew_fails:
  assumes st: "tasks st = wired n N ks ts new" and new: "id_task new = N"
    and x: "x \<notin> id_task ` set ts"
  shows "addNewDependencies e N (x # rest) st
           = (Inl (if x = N then DependencyCycle else NotFound), st)"
proof -
  have ids: "map id_task (tasks st) = map id_task ts @ [N]"
    by (simp add: st new)
  have "N \<in> id_task ` set (tasks st)"
    using arg_cong[OF ids, of set] by auto
  then obtain t1 where g1: "getTask (tasks st) N = Some t1"
    using getTask_None_iff[of "tasks st" N] by (metis not_Some_eq)
  show ?thesis
  proof (cases "x = N")
    case True
    with g1 wouldCreate_self[of "tasks st" N "[]"] show ?thesis
      by (simp add: addTaskDependency_def)
  next
    case False
    with x have "x \<notin> id_task ` set (tasks st)"
      using arg_cong[OF ids, of set] by auto
    then have "getTask (tasks st) x = None" by (simp add: getTask_None_iff)
    with g1 False show ?thesis
      by (simp add: addTaskDependency_def)
  qed
qed

lemma createTask_fails_at:
  assumes dist: "distinct (map id_task (tasks s))"
    and nd: "noDangling (tasks s)"
    and acyc: "acyclic (dependsOn (tasks s))"
    and small: "\<forall>t \<in> set (tasks s). id_task t < 2 ^ 53"
    and deps: "d_dependencies d = known @ x # rest"
    and known: "set known \<subseteq> id_task ` set (tasks s)"
    and x: "x \<notin> id_task ` set (tasks s)"
  shows "createTask e d s
           = (Inl (if x = getNextTaskId (tasks s) then DependencyCycle else NotFound),
              s\<lparr>tasks := wired (now e) (getNextTaskId (tasks s)) known (tasks s)
                             (newTaskRecord e d (tasks s))\<rparr>)"
proof -
  define new where "new = newTaskRecord e d (tasks s)"
  define N where "N = getNextTaskId (tasks s)"
  define n where "n = now e"
  define s1 where "s1 = saveTasks e (s\<lparr>tasks := tasks s @ [new]\<rparr>)"
  have new: "id_task new = N" "dependents new = []" "dependencies new = known @ x # rest"
    by (simp_all add: new_def N_def newTaskRecord_def deps)
  have fresh: "N \<notin> id_task ` set (tasks s)"
    unfolding N_def by (rule getNextTaskId_fresh[OF small])
  have nodep: "\<forall>t \<in> set (tasks s). N \<notin> set (dependents t)"
    using nd fresh unfolding noDangling_def by blast
  have unref: "\<forall>t \<in> set (tasks s). N \<notin> set (dependencies t)"
    using nd fresh unfolding noDangling_def by blast
  have ts1: "tasks s1 = map (markOverdue n) (tasks s @ [new])"
    by (simp add: s1_def saveTasks_def updateTaskStatuses_def n_def)
  have "getTask (tasks s) N = None"
    using fresh by (simp add: getTask_None_iff)
  then have g: "getTask (tasks s1) N = Some (markOverdue n new)"
    using new(1) by (simp add: ts1 getTask_snoc getTask_map)
  define s2 where "s2 = removeOldDependencies e N (dependencies (markOverdue n new)) s1"
  have "tasks s2 = map (markOverdue n)
          (tasks s @ [new\<lparr>dependencies := filter (\<lambda>i. i \<notin> set (dependencies new))
                                              (dependencies new)\<rparr>])"
    unfolding s2_def dependencies_markOverdue
    by (rule removeOld_wired[OF dist fresh nodep new(1,2) ts1]) (simp add: n_def)
  then have ts2: "tasks s2 = wired n N [] (tasks s) new"
    by (simp add: wired_Nil)
  have rt2: "recurringTasks s2 = recurringTasks s"
    by (simp add: s2_def s1_def)
  define s3 where "s3 = s2\<lparr>tasks := wired n N known (tasks s) new\<rparr>"
  have "addNewDependencies e N (known @ x # rest) s2 = addNewDependencies e N (x # rest) s3"
    using addNew_wired[OF dist fresh nodep unref acyc new(1) _ known ts2, of e "x # rest"]
    by (simp add: n_def s3_def)
  also have "\<dots> = (Inl (if x = N then DependencyCycle else NotFound), s3)"
    by (rule addNew_fails[OF _ new(1) x]) (simp add: s3_def)
  finally have u: "updateTaskDependencies e N (known @ x # rest) s1
                     = (Inl (if x = N then DependencyCycle else NotFound), s3)"
    by (simp add: updateTaskDependencies_def g s2_def new(3))
  have s3: "s3 = s\<lparr>tasks := wired n N known (tasks s) new\<rparr>"
    using rt2 by (simp add: s3_def)
  show ?thesis
    using u new
    by (simp add: createTask_def Let_def new_def[symmetric] s1_def[symmetric]
        N_def[symmetric] n_def[symmetric] s3)
qed

lemma dependsOn_no_edges:
  assumes "\<forall>t \<in> set ts. dependencies t = []"
  shows "dependsOn ts = {}"
  using assms getTask_Some_mem by (fastforce simp: dependsOn_def)

subsection \<open>Claims\<close>

text \<open>
  C1, as stated, fails: the record is pushed before the dependencies are wired, and
  nothing is rolled back. With task 1 in the store, \<^verbatim>\<open>createTask\<close> with the dependencies
  1 and 2 (2 is the id the new task gets) throws the circular-reference error at the
  second edge; the store then holds task 2 with the edge to task 1, and task 1 lists
  task 2 as a dependent. With the dependencies 5 and 2 the call throws at the unknown id
  5, before it comes to the edge that closes the cycle: the error is the one of a missing
  task, and the record stays as well.
\<close>

theorem createTask_cycle_not_rolled_back:
  "fst (createTask (env0 1) (data0 [1, 2] False) oneTask) = Inl DependencyCycle
   \<and> map id_task (tasks oneTask) = [1]
   \<and> map dependents (tasks oneTask) = [[]]
   \<and> map id_task (tasks (snd (createTask (env0 1) (data0 [1, 2] False) oneTask))) = [1, 2]
   \<and> map dependencies (tasks (snd (createTask (env0 1) (data0 [1, 2] False) oneTask))) = [[], [1]]
   \<and> map dependents (tasks (snd (createTask (env0 1) (data0 [1, 2] False) oneTask))) = [[2], []]
   \<and> fst (createTask (env0 1) (data0 [5, 2] False) oneTask) = Inl NotFound
   \<and> map id_task (tasks (snd (createTask (env0 1) (data0 [5, 2] False) oneTask))) = [1, 2]
   \<and> map dependencies (tasks (snd (createTask (env0 1) (data0 [5, 2] False) oneTask))) = [[], []]"
  by code_simp

text \<open>
  C1, amended. Whenever \<^verbatim>\<open>createTask\<close> fails, with whatever error, the store after the
  call is not the store before it: the new record has been appended under the next id;
  no recurring schedule is added.

  What the failed call leaves behind is this. Let the store have pairwise distinct ids
  below \<open>2 ^ 53\<close>, list in its dependencies and dependents ids of its own tasks only,
  and hold no dependency cycle; let \<open>x\<close> be the first entry of the dependencies of the
  request that is not the id of a task of the store, after the entries \<open>known\<close>. Then
  \<^verbatim>\<open>createTask\<close> fails: with the circular-reference error when \<open>x\<close> is the id that the
  new task gets, the edge from the new task to itself, and with the error of a missing
  task otherwise. The store then holds the earlier tasks, each with the new id appended
  to its dependents when its id is among \<open>known\<close>, followed by the new record, whose
  dependencies are the entries of \<open>known\<close>, each once and in the order of first
  appearance; the sweep of the save has run over all of them.
\<close>

theorem createTask_cycle_keeps_record:
  "(fst (createTask e d s) = Inl err \<longrightarrow>
      map id_task (tasks (snd (createTask e d s)))
        = map id_task (tasks s) @ [getNextTaskId (tasks s)]
      \<and> tasks (snd (createTask e d s)) \<noteq> tasks s
      \<and> recurringTasks (snd (createTask e d s)) = recurringTasks s)
   \<and> (distinct (map id_task (tasks s)) \<and> noDangling (tasks s)
        \<and> acyclic (dependsOn (tasks s)) \<and> (\<forall>t \<in> set (tasks s). id_task t < 2 ^ 53)
        \<and> d_dependencies d = known @ x # rest
        \<and> set known \<subseteq> id_task ` set (tasks s) \<and> x \<notin> id_task ` set (tasks s)
      \<longrightarrow>
      fst (createTask e d s)
        = Inl (if x = getNextTaskId (tasks s) then DependencyCycle else NotFound)
      \<and> tasks (snd (createTask e d s))
          = map (markOverdue (now e))
              (map (\<lambda>t. if id_task t \<in> set known
                         then t\<lparr>dependents := dependents t @ [getNextTaskId (tasks s)]\<rparr> else t)
                 (tasks s)
               @ [(newTaskRecord e d (tasks s))\<lparr>dependencies := rev (remdups (rev known))\<rparr>]))"
proof (intro conjI impI)
  have ids: "map id_task (tasks (snd (createTask e d s)))
               = map id_task (tasks s) @ [getNextTaskId (tasks s)]"
    by (rule ids_createTask)
  then show "map id_task (tasks (snd (createTask e d s)))
               = map id_task (tasks s) @ [getNextTaskId (tasks s)]" .
  from arg_cong[OF ids, of length]
  have "length (tasks (snd (createTask e d s))) = Suc (length (tasks s))" by simp
  then show "tasks (snd (createTask e d s)) \<noteq> tasks s" by auto
  assume "fst (createTask e d s) = Inl err"
  then show "recurringTasks (snd (createTask e d s)) = recurringTasks s"
    by (rule createTask_throw_recurringTasks)
next
  assume h: "distinct (map id_task (tasks s)) \<and> noDangling (tasks s)
        \<and> acyclic (dependsOn (tasks s)) \<and> (\<forall>t \<in> set (tasks s). id_task t < 2 ^ 53)
        \<and> d_dependencies d = known @ x # rest
        \<and> set known \<subseteq> id_task ` set (tasks s) \<and> x \<notin> id_task ` set (tasks s)"
  then have c: "createTask e d s
           = (Inl (if x = getNextTaskId (tasks s) then DependencyCycle else NotFound),
              s\<lparr>tasks := wired (now e) (getNextTaskId (tasks s)) known (tasks s)
                             (newTaskRecord e d (tasks s))\<rparr>)"
    by (intro createTask_fails_at) blast+
  show "fst (createTask e d s)
        = Inl (if x = getNextTaskId (tasks s) then DependencyCycle else NotFound)"
    by (simp add: c)
  show "tasks (snd (createTask e d s))
          = map (markOverdue (now e))
              (map (\<lambda>t. if id_task t \<in> set known
                         then t\<lparr>dependents := dependents t @ [getNextTaskId (tasks s)]\<rparr> else t)
                 (tasks s)
               @ [(newTaskRecord e d (tasks s))\<lparr>dependencies := rev (remdups (rev known))\<rparr>])"
    by (simp add: c wired_def)
qed

theorem createTask_cycle_keeps_record_witness:
  "fst (createTask (env0 1) (data0 [1, 2] False) oneTask) = Inl DependencyCycle
   \<and> tasks (snd (createTask (env0 1) (data0 [1, 2] False) oneTask)) \<noteq> tasks oneTask
   \<and> map id_task (tasks (snd (createTask (env0 1) (data0 [1, 2] False) oneTask))) = [1, 2]
   \<and> map dependents (tasks (snd (createTask (env0 1) (data0 [1, 2] False) oneTask))) = [[2], []]
   \<and> map dependencies (tasks (snd (createTask (env0 1) (data0 [1, 2] False) oneTask))) = [[], [1]]"
proof -
  have dist: "distinct (map id_task (tasks oneTask))" by code_simp
  have nodang: "noDangling (tasks oneTask)" by code_simp
  have "\<forall>t \<in> set (tasks oneTask). dependencies t = []" by code_simp
  then have acyc: "acyclic (dependsOn (tasks oneTask))"
    by (simp add: dependsOn_no_edges acyclic_def)
  have small: "\<forall>t \<in> set (tasks oneTask). id_task t < 2 ^ 53" by code_simp
  have deps: "d_dependencies (data0 [1, 2] False) = [1] @ 2 # []" by (simp add: data0_def)
  have known: "set [1] \<subseteq> id_task ` set (tasks oneTask)" by code_simp
  have x: "2 \<notin> id_task ` set (tasks oneTask)" by code_simp
  have nid: "getNextTaskId (tasks oneTask) = 2" by code_simp
  have old: "map id_task (tasks oneTask) = [1]" "map dependents (tasks oneTask) = [[]]"
    "map dependencies (tasks oneTask) = [[]]" by code_simp+
  have nd: "dependents (newTaskRecord (env0 1) (data0 [1, 2] False) (tasks oneTask)) = []"
    "id_task (newTaskRecord (env0 1) (data0 [1, 2] False) (tasks oneTask)) = 2"
    by (simp_all add: newTaskRecord_def nid)
  from old(1) obtain t0 where t0: "tasks oneTask = [t0]"
    by (cases "tasks oneTask") auto
  with old have t0': "id_task t0 = 1" "dependents t0 = []" "dependencies t0 = []" by simp_all
  have now1: "now (env0 1) = 1" by (simp add: env0_def)
  note c = createTask_cycle_keeps_record[of "env0 1" "data0 [1, 2] False" oneTask
      DependencyCycle "[1]" 2 "[]", unfolded nid now1]
  from c dist nodang acyc small deps known x
  have f: "fst (createTask (env0 1) (data0 [1, 2] False) oneTask) = Inl DependencyCycle"
    and t: "tasks (snd (createTask (env0 1) (data0 [1, 2] False) oneTask))
          = map (markOverdue 1)
              (map (\<lambda>t. if id_task t \<in> set [1] then t\<lparr>dependents := dependents t @ [2]\<rparr> else t)
                 (tasks oneTask)
               @ [(newTaskRecord (env0 1) (data0 [1, 2] False) (tasks oneTask))
                    \<lparr>dependencies := rev (remdups (rev [1]))\<rparr>])"
    by simp_all
  from c f have "tasks (snd (createTask (env0 1) (data0 [1, 2] False) oneTask)) \<noteq> tasks oneTask"
    by blast
  moreover from t
  have "tasks (snd (createTask (env0 1) (data0 [1, 2] False) oneTask))
          = [markOverdue 1 (t0\<lparr>dependents := [2]\<rparr>),
             markOverdue 1
               ((newTaskRecord (env0 1) (data0 [1, 2] False) (tasks oneTask))\<lparr>dependencies := [1]\<rparr>)]"
    by (simp add: t0 t0')
  ultimately show ?thesis
    using f by (simp add: t0' nd)
qed

text \<open>
  C2, as stated, fails for schedules that are active, daily, of interval 2 and due at
  172800000, at the tick of that time.
  \<^item> The loop tests the end date first: the schedule of \<open>endedSchedule\<close> ended a day
    before; the tick creates no task and leaves the due date where it is.
  \<^item> The instance is made by \<^verbatim>\<open>createTask\<close> from the template, dependencies included.
    The template of \<open>orphanedTemplate\<close> names a task that has been deleted: the tick
    throws after the instance has been pushed, the schedules are not written back, and
    every further tick pushes one more instance for the same due date.
  \<^item> The step is read from the template, not from the type and the interval of the
    schedule: with the template of \<open>weeklyTemplate\<close> the due date moves by 14 days.
  \<^item> The days are days of the local calendar: where the clocks are put forward in
    between (\<open>envSwitch\<close>), the due date moves by 47 hours.
\<close>

theorem tick_not_as_claimed:
  "map isActive (recurringTasks endedSchedule) = [True]
   \<and> map type_schedule (recurringTasks endedSchedule) = [Some DAILY]
   \<and> map interval (recurringTasks endedSchedule) = [2]
   \<and> map nextDue (recurringTasks endedSchedule) = [172800000]
   \<and> fst (processRecurringTasks (env0 172800000) endedSchedule) = Inr ()
   \<and> tasks (snd (processRecurringTasks (env0 172800000) endedSchedule)) = tasks endedSchedule
   \<and> map nextDue (recurringTasks (snd (processRecurringTasks (env0 172800000) endedSchedule)))
       = [172800000]
   \<and> map isActive (recurringTasks orphanedTemplate) = [True]
   \<and> map type_schedule (recurringTasks orphanedTemplate) = [Some DAILY]
   \<and> map interval (recurringTasks orphanedTemplate) = [2]
   \<and> map nextDue (recurringTasks orphanedTemplate) = [172800000]
   \<and> map endDate (recurringTasks orphanedTemplate) = [None]
   \<and> map id_task (tasks orphanedTemplate) = [2]
   \<and> fst (processRecurringTasks (env0 172800000) orphanedTemplate) = Inl NotFound
   \<and> map id_task (tasks (snd (processRecurringTasks (env0 172800000) orphanedTemplate))) = [2, 3]
   \<and> recurringTasks (snd (processRecurringTasks (env0 172800000) orphanedTemplate))
       = recurringTasks orphanedTemplate
   \<and> map id_task (tasks (snd (processRecurringTasks (env0 172800000)
        (snd (processRecurringTasks (env0 172800000) orphanedTemplate))))) = [2, 3, 4]
   \<and> map dueDate (tasks (snd (processRecurringTasks (env0 172800000)
        (snd (processRecurringTasks (env0 172800000) orphanedTemplate)))))
       = [None, Some 172800000, Some 172800000]
   \<and> map isActive (recurringTasks weeklyTemplate) = [True]
   \<and> map type_schedule (recurringTasks weeklyTemplate) = [Some DAILY]
   \<and> map interval (recurringTasks weeklyTemplate) = [2]
   \<and> map nextDue (recurringTasks weeklyTemplate) = [172800000]
   \<and> fst (processRecurringTasks (env0 172800000) weeklyTemplate) = Inr ()
   \<and> map nextDue (recurringTasks (snd (processRecurringTasks (env0 172800000) weeklyTemplate)))
       = [172800000 + 14 * 86400000]
   \<and> map nextDue (recurringTasks recurringOnly) = [172800000]
   \<and> fst (processRecurringTasks (envSwitch 172800000) recurringOnly) = Inr ()
   \<and> map nextDue (recurringTasks (snd (processRecurringTasks (envSwitch 172800000) recurringOnly)))
       = [172800000 + 47 * 3600000]"
  by code_simp

text \<open>
  C2, amended. Let \<open>sch\<close> be an active daily schedule of interval 2, anywhere in the
  stored list, whose template carries the same type and interval (as it does in every
  schedule that \<^verbatim>\<open>createRecurringTaskSchedule\<close> builds), due at \<open>D\<close>, with an end date
  that is unset or not before \<open>D\<close>. Consider the tick at \<open>D\<close>.
  \<^item> When it returns, it has recorded exactly one new id \<open>n\<close> in the schedule and
    moved its due date to the same local time two calendar days after \<open>D\<close>, counted
    from the previous due date: \<open>D\<close> in local time, plus two days of 86400000 ms,
    read with the offset in force then; that is \<open>D\<close> plus 172800000 where the offset is
    the same at both times. A task with the id \<open>n\<close> and the due date \<open>D\<close> sits at a new
    position of the store, and when every other schedule is inactive the store has grown
    by exactly that one task. Where the offsets of the local zone are smaller than a
    day, a second tick at \<open>D\<close> leaves the entry of the schedule as it is, so it records
    no further instance, and when every other schedule is inactive it changes nothing
    at all.
  \<^item> When it throws, the stored schedules are as they were before the tick, so that the
    schedule is due again at the next tick; the tasks pushed before the throw stay.
  \<^item> It returns when every other schedule is inactive, the template has no
    dependencies, and \<open>D\<close> and the new due date lie in the range of \<^verbatim>\<open>Date\<close>.
\<close>

theorem tick_creates_one_instance:
  assumes scheds: "recurringTasks s = pre @ sch # post"
    and act: "isActive sch"
    and daily: "type_schedule sch = Some DAILY" "interval sch = 2"
    and tmpl: "recurringType (template sch) = type_schedule sch"
              "recurringInterval (template sch) = interval sch"
    and due: "nextDue sch = D" and now1: "now e = D" and now2: "now e2 = D"
    and notEnded: "\<forall>d. endDate sch = Some d \<longrightarrow> D \<le> d"
  shows "(\<forall>s1. processRecurringTasks e s = (Inr (), s1) \<longrightarrow>
           (\<exists>n p. recurringTasks s1 ! length pre
                     = sch\<lparr>createdInstances := createdInstances sch @ [n],
                           nextDue := D + utcOffset e D + 2 * 86400000
                                        - localOffset e (D + utcOffset e D + 2 * 86400000)\<rparr>
                 \<and> (localOffset e (D + utcOffset e D + 2 * 86400000) = utcOffset e D \<longrightarrow>
                       nextDue (recurringTasks s1 ! length pre) = D + 2 * 86400000)
                 \<and> length (recurringTasks s1) = length (recurringTasks s)
                 \<and> length (tasks s) \<le> p \<and> p < length (tasks s1)
                 \<and> id_task (tasks s1 ! p) = n \<and> dueDate (tasks s1 ! p) = Some D
                 \<and> ((\<forall>x \<in> set pre \<union> set post. \<not> isActive x) \<longrightarrow>
                       map id_task (tasks s1) = map id_task (tasks s) @ [n])
                 \<and> ((\<forall>t. \<bar>utcOffset e t\<bar> < 86400000 \<and> \<bar>localOffset e t\<bar> < 86400000) \<longrightarrow>
                       recurringTasks (snd (processRecurringTasks e2 s1)) ! length pre
                         = recurringTasks s1 ! length pre
                       \<and> ((\<forall>x \<in> set pre \<union> set post. \<not> isActive x) \<longrightarrow>
                             processRecurringTasks e2 s1 = (Inr (), s1)))))
       \<and> (\<forall>err s1. processRecurringTasks e s = (Inl err, s1) \<longrightarrow>
             recurringTasks s1 = recurringTasks s
             \<and> (\<exists>extra. map id_task (tasks s1) = map id_task (tasks s) @ extra))
       \<and> ((\<forall>x \<in> set pre \<union> set post. \<not> isActive x) \<and> dependencies (template sch) = []
            \<and> timeClip D \<noteq> None \<and> setDateBy e D 2 \<noteq> None
            \<longrightarrow> fst (processRecurringTasks e s) = Inr ())"
proof (intro conjI allI impI)
  fix err s1
  assume "processRecurringTasks e s = (Inl err, s1)"
  from processRecurringTasks_throw[OF this]
  show "recurringTasks s1 = recurringTasks s"
    and "\<exists>extra. map id_task (tasks s1) = map id_task (tasks s) @ extra" .
next
  assume h: "(\<forall>x \<in> set pre \<union> set post. \<not> isActive x) \<and> dependencies (template sch) = []
            \<and> timeClip D \<noteq> None \<and> setDateBy e D 2 \<noteq> None"
  then have others: "\<forall>x \<in> set pre \<union> set post. \<not> isActive x" by blast
  have "d_dependencies (instanceData e sch) = []" "\<not> d_isRecurring (instanceData e sch)"
    using h by (simp_all add: instanceData_def Let_def)
  from createTask_plain_returns[OF this, of e s] obtain t where
    t: "fst (createTask e (instanceData e sch) s) = Inr t" by blast
  have "recurringType (template sch) = Some DAILY" "recurringInterval (template sch) = 2"
    using tmpl daily by simp_all
  with h calculateNextDueDate_daily_Inr[of "template sch" D e] obtain x where
    x: "calculateNextDueDate e (template sch) D = Inr x" by auto
  obtain sb where ct: "createTask e (instanceData e sch) s = (Inr t, sb)"
    using t by (cases "createTask e (instanceData e sch) s") simp
  have "processSchedule e sch s
          = (Inr (sch\<lparr>createdInstances := createdInstances sch @ [id_task t], nextDue := x\<rparr>), sb)"
    using act endDate_test[OF notEnded now1] ct x
    by (simp add: processSchedule_def now1 due createRecurringTaskInstance_def)
  then have "processSchedules e [sch] s
          = (Inr [sch\<lparr>createdInstances := createdInstances sch @ [id_task t], nextDue := x\<rparr>], sb)"
    by simp
  from processSchedules_single[OF others this]
  show "fst (processRecurringTasks e s) = Inr ()"
    by (simp add: processRecurringTasks_def scheds)
next
  fix s1
  assume returns: "processRecurringTasks e s = (Inr (), s1)"
  let ?nd = "D + utcOffset e D + 2 * 86400000 - localOffset e (D + utcOffset e D + 2 * 86400000)"
  from returns obtain out s1' where
    ps: "processSchedules e (pre @ sch # post) s = (Inr out, s1')"
    and s1: "s1 = s1'\<lparr>recurringTasks := out\<rparr>"
    by (auto simp: processRecurringTasks_def scheds split: prod.splits sum.splits)
  from processSchedules_append_Inr[OF ps] obtain pre' rest sa where
    p1: "processSchedules e pre s = (Inr pre', sa)"
    and p2: "processSchedules e (sch # post) sa = (Inr rest, s1')"
    and out: "out = pre' @ rest" by blast
  from processSchedules_Cons_Inr[OF p2] obtain sch' post' sb where
    b: "processSchedule e sch sa = (Inr sch', sb)"
    and p3: "processSchedules e post sb = (Inr post', s1')"
    and rest: "rest = sch' # post'" by blast
  have inst: "createRecurringTaskInstance e sch sa = (Inr sch', sb)"
    using b act endDate_test[OF notEnded now1] by (simp add: processSchedule_def now1 due)
  then obtain newTask x where
    ct: "createTask e (instanceData e sch) sa = (Inr newTask, sb)"
    and cn: "calculateNextDueDate e (template sch) (nextDue sch) = Inr x"
    and sch': "sch' = sch\<lparr>createdInstances := createdInstances sch @ [id_task newTask],
                          nextDue := x\<rparr>"
    by (auto simp: createRecurringTaskInstance_def split: prod.splits sum.splits)
  have td: "recurringType (template sch) = Some DAILY" and ti: "recurringInterval (template sch) = 2"
    using tmpl daily by simp_all
  have nd: "x = ?nd"
    using calculateNextDueDate_daily(1)[OF td cn] by (simp add: ti due)
  have later: "D < ?nd"
    if zone: "\<forall>t. \<bar>utcOffset e t\<bar> < 86400000 \<and> \<bar>localOffset e t\<bar> < 86400000"
  proof -
    from zone have "\<bar>utcOffset e D\<bar> < 86400000"
      and "\<bar>localOffset e (D + utcOffset e D + 2 * 86400000)\<bar> < 86400000" by blast+
    then show ?thesis by linarith
  qed
  define n where "n = id_task newTask"
  define p where "p = length (tasks sa)"
  have lp: "length pre' = length pre" by (rule processSchedules_length[OF p1])
  have lpost: "length post' = length post" by (rule processSchedules_length[OF p3])
  have c1: "recurringTasks s1 ! length pre
              = sch\<lparr>createdInstances := createdInstances sch @ [n], nextDue := ?nd\<rparr>"
    using lp by (simp add: s1 out rest sch' nd n_def nth_append)
  have c2: "length (recurringTasks s1) = length (recurringTasks s)"
    by (simp add: s1 out rest lp lpost scheds)
  from processSchedules_frame[of e pre s] p1 obtain ex1 where
    ex1: "map core (tasks sa) = map core (tasks s) @ ex1" by auto
  from processSchedules_frame[of e post sb] p3 obtain ex2 where
    ex2: "map core (tasks s1') = map core (tasks sb) @ ex2" by auto
  have sbc: "map core (tasks sb) = map core (tasks sa) @ [core (newTaskRecord e (instanceData e sch) (tasks sa))]"
    using core_createTask[of e "instanceData e sch" sa] ct by simp
  have newid: "n = getNextTaskId (tasks sa)"
    using createTask_result[of e "instanceData e sch" sa newTask] ct
      last_createTask_id[of e "instanceData e sch" sa]
    by (simp add: n_def)
  have len_sa: "length (tasks s) \<le> length (tasks sa)"
    using arg_cong[OF ex1, of length] by simp
  have len_s1: "p < length (tasks s1)"
    using arg_cong[OF ex2, of length] arg_cong[OF sbc, of length] by (simp add: s1 p_def)
  have corep: "core (tasks s1 ! p) = core (newTaskRecord e (instanceData e sch) (tasks sa))"
  proof -
    have "core (tasks s1 ! p) = map core (tasks s1') ! p"
      using len_s1 by (simp add: s1)
    also have "\<dots> = core (newTaskRecord e (instanceData e sch) (tasks sa))"
      by (simp only: ex2 sbc) (simp add: p_def nth_append)
    finally show ?thesis .
  qed
  have c5: "id_task (tasks s1 ! p) = n"
  proof -
    have "id_task (tasks s1 ! p) = id_task (core (tasks s1 ! p))" by simp
    also have "\<dots> = n" by (simp only: corep) (simp add: newTaskRecord_def newid)
    finally show ?thesis .
  qed
  have c6: "dueDate (tasks s1 ! p) = Some D"
  proof -
    have "dueDate (tasks s1 ! p) = dueDate (core (tasks s1 ! p))" by simp
    also have "\<dots> = Some D"
      by (simp only: corep) (simp add: newTaskRecord_def instanceData_def Let_def due)
    finally show ?thesis .
  qed
  have rt1: "recurringTasks s1 = pre' @ sch' # post'"
    by (simp add: s1 out rest)
  have c1': "nextDue (recurringTasks s1 ! length pre) = D + 2 * 86400000"
    if "localOffset e (D + utcOffset e D + 2 * 86400000) = utcOffset e D"
    using that by (simp add: c1)
  have wait: "processSchedule e2 sch' st = (Inr sch', st)"
    if zone: "\<forall>t. \<bar>utcOffset e t\<bar> < 86400000 \<and> \<bar>localOffset e t\<bar> < 86400000" for st
    using act endDate_test[OF notEnded now2] later[OF zone]
    by (simp add: processSchedule_def sch' nd now2)
  have c7: "recurringTasks (snd (processRecurringTasks e2 s1)) ! length pre
              = recurringTasks s1 ! length pre"
    if zone: "\<forall>t. \<bar>utcOffset e t\<bar> < 86400000 \<and> \<bar>localOffset e t\<bar> < 86400000"
  proof (cases "processSchedules e2 (recurringTasks s1) s1")
    case (Pair r s2)
    show ?thesis
    proof (cases r)
      case (Inl err)
      with Pair processSchedules_frame[of e2 "recurringTasks s1" s1] show ?thesis
        by (simp add: processRecurringTasks_def)
    next
      case (Inr out2)
      have k: "length pre < length (recurringTasks s1)" "recurringTasks s1 ! length pre = sch'"
        using lp by (simp_all add: rt1 nth_append)
      have "out2 ! length pre = recurringTasks s1 ! length pre"
        using Pair Inr k wait[OF zone]
        by (intro processSchedules_keeps_waiting[of e2 "recurringTasks s1" s1 out2 s2]) simp_all
      with Pair Inr show ?thesis
        by (simp add: processRecurringTasks_def)
    qed
  qed
  have c8: "map id_task (tasks s1) = map id_task (tasks s) @ [n]"
    and c9: "(\<forall>t. \<bar>utcOffset e t\<bar> < 86400000 \<and> \<bar>localOffset e t\<bar> < 86400000) \<longrightarrow>
             processRecurringTasks e2 s1 = (Inr (), s1)"
    if others: "\<forall>x \<in> set pre \<union> set post. \<not> isActive x"
  proof -
    from others p1 have sa: "sa = s" and pre': "pre' = pre"
      by (simp_all add: processSchedules_inactive)
    from others p3 have sb: "s1' = sb" and post': "post' = post"
      by (simp_all add: processSchedules_inactive)
    have "map id_task (tasks sb) = map id_task (tasks s) @ [getNextTaskId (tasks s)]"
      using ids_createTask[of e "instanceData e sch" s] ct by (simp add: sa)
    then show "map id_task (tasks s1) = map id_task (tasks s) @ [n]"
      by (simp add: s1 sb newid sa)
    have s1eq: "s1\<lparr>recurringTasks := pre @ sch' # post\<rparr> = s1"
      by (simp add: s1 out rest pre' post')
    show "(\<forall>t. \<bar>utcOffset e t\<bar> < 86400000 \<and> \<bar>localOffset e t\<bar> < 86400000) \<longrightarrow>
             processRecurringTasks e2 s1 = (Inr (), s1)"
    proof
      assume zone: "\<forall>t. \<bar>utcOffset e t\<bar> < 86400000 \<and> \<bar>localOffset e t\<bar> < 86400000"
      have two: "processSchedules e2 [sch'] s1 = (Inr [sch'], s1)"
        by (simp add: wait[OF zone])
      from s1eq show "processRecurringTasks e2 s1 = (Inr (), s1)"
        by (simp add: processRecurringTasks_def rt1 pre' post'
            processSchedules_single[OF others two])
    qed
  qed
  from c1 c1' c2 len_sa len_s1 c5 c6 c7 c8 c9
  show "\<exists>n p. recurringTasks s1 ! length pre
                     = sch\<lparr>createdInstances := createdInstances sch @ [n], nextDue := ?nd\<rparr>
                 \<and> (localOffset e (D + utcOffset e D + 2 * 86400000) = utcOffset e D \<longrightarrow>
                       nextDue (recurringTasks s1 ! length pre) = D + 2 * 86400000)
                 \<and> length (recurringTasks s1) = length (recurringTasks s)
                 \<and> length (tasks s) \<le> p \<and> p < length (tasks s1)
                 \<and> id_task (tasks s1 ! p) = n \<and> dueDate (tasks s1 ! p) = Some D
                 \<and> ((\<forall>x \<in> set pre \<union> set post. \<not> isActive x) \<longrightarrow>
                       map id_task (tasks s1) = map id_task (tasks s) @ [n])
                 \<and> ((\<forall>t. \<bar>utcOffset e t\<bar> < 86400000 \<and> \<bar>localOffset e t\<bar> < 86400000) \<longrightarrow>
                       recurringTasks (snd (processRecurringTasks e2 s1)) ! length pre
                         = recurringTasks s1 ! length pre
                       \<and> ((\<forall>x \<in> set pre \<union> set post. \<not> isActive x) \<longrightarrow>
                             processRecurringTasks e2 s1 = (Inr (), s1)))"
    unfolding p_def by blast
qed

theorem tick_creates_one_instance_witness:
  "processRecurringTasks (env0 172800000) recurringOnly
     = (Inr (), snd (processRecurringTasks (env0 172800000) recurringOnly))
   \<and> map id_task (tasks recurringOnly) = [1]
   \<and> map id_task (tasks (snd (processRecurringTasks (env0 172800000) recurringOnly))) = [1, 2]
   \<and> map nextDue (recurringTasks (snd (processRecurringTasks (env0 172800000) recurringOnly)))
       = [345600000]
   \<and> nextDue (recurringTasks (snd (processRecurringTasks (env0 172800000) recurringOnly)) ! 0)
       = 172800000 + 2 * 86400000
   \<and> processRecurringTasks (env0 172800000)
        (snd (processRecurringTasks (env0 172800000) recurringOnly))
       = (Inr (), snd (processRecurringTasks (env0 172800000) recurringOnly))
   \<and> fst (processRecurringTasks (env0 172800000) orphanedTemplate) = Inl NotFound
   \<and> recurringTasks (snd (processRecurringTasks (env0 172800000) orphanedTemplate))
       = recurringTasks orphanedTemplate"
proof -
  let ?e = "env0 172800000"
  let ?sch = "hd (recurringTasks recurringOnly)"
  let ?s1 = "snd (processRecurringTasks ?e recurringOnly)"
  have scheds: "recurringTasks recurringOnly = [] @ ?sch # []" by code_simp
  have others: "\<forall>x \<in> set [] \<union> set []. \<not> isActive x" by simp
  have act: "isActive ?sch" by code_simp
  have daily: "type_schedule ?sch = Some DAILY" "interval ?sch = 2" by code_simp+
  have tmpl: "recurringType (template ?sch) = type_schedule ?sch"
    "recurringInterval (template ?sch) = interval ?sch" by code_simp+
  have due: "nextDue ?sch = 172800000" by code_simp
  have now: "now ?e = 172800000" by (simp add: env0_def)
  have "endDate ?sch = None" by code_simp
  then have notEnded: "\<forall>d. endDate ?sch = Some d \<longrightarrow> 172800000 \<le> d" by simp
  have zone: "\<forall>t. \<bar>utcOffset ?e t\<bar> < 86400000 \<and> \<bar>localOffset ?e t\<bar> < 86400000"
    by (simp add: env0_def)
  have plain: "dependencies (template ?sch) = []" by code_simp
  have range: "timeClip 172800000 \<noteq> None" "setDateBy ?e 172800000 2 \<noteq> None"
    by (simp_all add: timeClip_def setDateBy_def env0_def)
  have returns: "processRecurringTasks ?e recurringOnly = (Inr (), ?s1)" by code_simp
  have ids: "map id_task (tasks recurringOnly) = [1]"
    "map id_task (tasks ?s1) = [1, 2]"
    "map nextDue (recurringTasks ?s1) = [345600000]" by code_simp+
  note t = tick_creates_one_instance[OF scheds act daily tmpl due now now notEnded]
  have same: "localOffset ?e (172800000 + utcOffset ?e 172800000 + 2 * 86400000)
                = utcOffset ?e 172800000" by (simp add: env0_def)
  from t returns others zone have "processRecurringTasks ?e ?s1 = (Inr (), ?s1)" by blast
  moreover from t returns same
  have "nextDue (recurringTasks ?s1 ! length ([] :: schedule list)) = 172800000 + 2 * 86400000"
    by blast
  moreover from t others plain range have "fst (processRecurringTasks ?e recurringOnly) = Inr ()"
    by blast
  moreover
  let ?sch2 = "hd (recurringTasks orphanedTemplate)"
  let ?s2 = "snd (processRecurringTasks ?e orphanedTemplate)"
  have scheds2: "recurringTasks orphanedTemplate = [] @ ?sch2 # []" by code_simp
  have act2: "isActive ?sch2" by code_simp
  have daily2: "type_schedule ?sch2 = Some DAILY" "interval ?sch2 = 2" by code_simp+
  have tmpl2: "recurringType (template ?sch2) = type_schedule ?sch2"
    "recurringInterval (template ?sch2) = interval ?sch2" by code_simp+
  have due2: "nextDue ?sch2 = 172800000" by code_simp
  have "endDate ?sch2 = None" by code_simp
  then have notEnded2: "\<forall>d. endDate ?sch2 = Some d \<longrightarrow> 172800000 \<le> d" by simp
  have throws: "processRecurringTasks ?e orphanedTemplate = (Inl NotFound, ?s2)" by code_simp
  note t2 = tick_creates_one_instance[OF scheds2 act2 daily2 tmpl2 due2 now now notEnded2]
  from t2 throws have "recurringTasks ?s2 = recurringTasks orphanedTemplate" by blast
  moreover from throws have "fst (processRecurringTasks ?e orphanedTemplate) = Inl NotFound"
    by (metis fst_conv)
  ultimately show ?thesis using returns ids by simp
qed

text \<open>
  C3. The throw of \<^verbatim>\<open>deleteTask\<close> for a recurring task comes after \<^verbatim>\<open>removeDependencies\<close>
  and before the task is removed: in \<open>recurringParent\<close> task 1 still lists task 2 as a
  dependent while task 2 no longer depends on task 1. In every run from the empty store,
  of at most \<open>2 ^ 53\<close> calls with updates of the fields of \<open>updates\<close>, in which no
  \<^verbatim>\<open>deleteTask\<close> ends in that throw, the two lists stay inverse to each other
  (\<open>symmetric_run\<close>).
\<close>

theorem delete_recurring_breaks_symmetry:
  "symmetric (tasks recurringParent)
   \<and> map dependencies (tasks (run [(env0 1, DeleteTask 1)] recurringParent)) = [[], []]
   \<and> map dependents (tasks (run [(env0 1, DeleteTask 1)] recurringParent)) = [[2], []]
   \<and> \<not> symmetric (tasks (run [(env0 1, DeleteTask 1)] recurringParent))"
  by code_simp

theorem delete_recurring_breaks_symmetry_witness:
  "symmetric (tasks recurringParent)
   \<and> \<not> symmetric (tasks (snd (deleteTask (env0 1) 1 recurringParent)))"
  using delete_recurring_breaks_symmetry by (simp add: run_def)




text \<open>
  C5. The method stores the clamped value but compares the argument with 100. For the
  pending task of \<open>oneTask\<close> and the progress 150 the stored progress is 100, the status
  becomes \<open>IN_PROGRESS\<close> and no completion time is set. For arguments up to 100 the
  method does what the claim says, up to the overdue sweep of the save
  (\<open>updateTaskProgress_upto_100\<close>).
\<close>

theorem progress_above_100_not_completed:
  "map status (tasks oneTask) = [PENDING]
   \<and> fst (updateTaskProgress (env0 1) 1 150 None oneTask)
       = Inr (last (tasks (snd (updateTaskProgress (env0 1) 1 150 None oneTask))))
   \<and> map progress (tasks (snd (updateTaskProgress (env0 1) 1 150 None oneTask))) = [100]
   \<and> map status (tasks (snd (updateTaskProgress (env0 1) 1 150 None oneTask))) = [IN_PROGRESS]
   \<and> map completedAt (tasks (snd (updateTaskProgress (env0 1) 1 150 None oneTask))) = [None]"
  by code_simp

text \<open>
  C6. \<^verbatim>\<open>getOverdueTasks\<close> leaves out the completed tasks only (\<open>getOverdueTasks_filter\<close>),
  while the sweep \<^verbatim>\<open>updateTaskStatuses\<close> leaves out the cancelled ones as well. The
  cancelled task of \<open>cancelledTask\<close>, due at 0, is returned at time 1.
\<close>

theorem cancelled_task_reported_overdue:
  "map status (tasks cancelledTask) = [CANCELLED]
   \<and> map dueDate (tasks cancelledTask) = [Some 0]
   \<and> getOverdueTasks 1 (tasks cancelledTask) = tasks cancelledTask"
  by code_simp

text \<open>
  C7, as stated, fails: the id of a deleted task is assigned again. Task 1 is created
  and deleted, and the next task created is task 1 again. The ids are not unique
  either, once the sum is not exact: in a store that holds the id \<open>2 ^ 53\<close> the next id
  is \<open>2 ^ 53\<close> again.
\<close>

theorem deleted_id_reused:
  "map id_task (tasks oneTask) = [1]
   \<and> fst (deleteTask (env0 1) 1 oneTask) = Inr True
   \<and> tasks (snd (deleteTask (env0 1) 1 oneTask)) = []
   \<and> map id_task
        (tasks (snd (createTask (env0 2) (data0 [] False) (snd (deleteTask (env0 1) 1 oneTask)))))
       = [1]
   \<and> map id_task (tasks largeId) = [2 ^ 53]
   \<and> getNextTaskId (tasks largeId) = 2 ^ 53
   \<and> map id_task (tasks (snd (createTask (env0 1) (data0 [] False) largeId))) = [2 ^ 53, 2 ^ 53]"
  by code_simp

text \<open>
  C7, amended. Let the ids of the store be at most \<open>B\<close>, with \<open>B\<close> below \<open>2 ^ 53\<close>.
  The id that \<^verbatim>\<open>createTask\<close> assigns is \<open>max (existing ids, 0) + 1\<close>, it is the id of no
  task in the store, and the new task is appended under that id. After every sequence
  of calls of \<^verbatim>\<open>createTask\<close> and \<^verbatim>\<open>deleteTask\<close> on a store with pairwise distinct ids,
  where \<open>B\<close> plus the number of calls is at most \<open>2 ^ 53\<close>, the ids are pairwise
  distinct. A deleted id is assigned again: when the task just created, not a recurring
  one, is deleted, the call returns, the store has the ids it had before, and the next
  id is the deleted one.
\<close>

theorem ids_max_plus_one_distinct:
  assumes bound: "\<forall>t \<in> set (tasks s). id_task t \<le> B" and B0: "0 \<le> B" and B: "B < 2 ^ 53"
  shows "getNextTaskId (tasks s) = Max (insert 0 (id_task ` set (tasks s))) + 1
       \<and> getNextTaskId (tasks s) \<notin> id_task ` set (tasks s)
       \<and> map id_task (tasks (snd (createTask e d s)))
           = map id_task (tasks s) @ [getNextTaskId (tasks s)]
       \<and> (distinct (map id_task (tasks s)) \<and> (\<forall>eo \<in> set ops. createOrDelete (snd eo))
            \<and> B + int (length ops) \<le> 2 ^ 53
            \<longrightarrow> distinct (map id_task (tasks (run ops s))))
       \<and> (\<not> d_isRecurring d \<longrightarrow>
            fst (deleteTask e' (getNextTaskId (tasks s)) (snd (createTask e d s))) = Inr True
            \<and> map id_task
                 (tasks (snd (deleteTask e' (getNextTaskId (tasks s)) (snd (createTask e d s)))))
                = map id_task (tasks s)
            \<and> getNextTaskId
                 (tasks (snd (deleteTask e' (getNextTaskId (tasks s)) (snd (createTask e d s)))))
                = getNextTaskId (tasks s))"
proof -
  from bound B have small: "\<forall>t \<in> set (tasks s). id_task t < 2 ^ 53" by fastforce
  have c1: "getNextTaskId (tasks s) = Max (insert 0 (id_task ` set (tasks s))) + 1"
    by (rule getNextTaskId_Max[OF small])
  have c2: "getNextTaskId (tasks s) \<notin> id_task ` set (tasks s)"
    by (rule getNextTaskId_fresh[OF small])
  have c3: "map id_task (tasks (snd (createTask e d s)))
              = map id_task (tasks s) @ [getNextTaskId (tasks s)]"
    by (rule ids_createTask)
  have c4: "distinct (map id_task (tasks (run ops s)))"
    if "distinct (map id_task (tasks s))" "B + int (length ops) \<le> 2 ^ 53"
    using run_distinct[OF that(1) bound B0 that(2)] by simp
  have c5: "fst (deleteTask e' (getNextTaskId (tasks s)) (snd (createTask e d s))) = Inr True
            \<and> map id_task
                 (tasks (snd (deleteTask e' (getNextTaskId (tasks s)) (snd (createTask e d s)))))
                = map id_task (tasks s)
            \<and> getNextTaskId
                 (tasks (snd (deleteTask e' (getNextTaskId (tasks s)) (snd (createTask e d s)))))
                = getNextTaskId (tasks s)"
    if "\<not> d_isRecurring d"
    using delete_created[OF small that, of e' e] getNextTaskId_cong by blast
  from c1 c2 c3 c4 c5 show ?thesis by blast
qed

theorem ids_max_plus_one_distinct_witness:
  "getNextTaskId (tasks emptyState) = 1
   \<and> distinct (map id_task (tasks (run [(env0 0, CreateTask (data0 [] False)),
        (env0 1, DeleteTask 1), (env0 2, CreateTask (data0 [] False)),
        (env0 3, CreateTask (data0 [1] False))] emptyState)))
   \<and> getNextTaskId
        (tasks (snd (deleteTask (env0 1) 1 (snd (createTask (env0 0) (data0 [] False) emptyState)))))
       = 1"
proof -
  let ?ops = "[(env0 0, CreateTask (data0 [] False)), (env0 1, DeleteTask 1),
               (env0 2, CreateTask (data0 [] False)), (env0 3, CreateTask (data0 [1] False))]"
  have b: "\<forall>t \<in> set (tasks emptyState). id_task t \<le> 0" by (simp add: emptyState_def)
  have d: "distinct (map id_task (tasks emptyState))" by (simp add: emptyState_def)
  have o: "\<forall>eo \<in> set ?ops. createOrDelete (snd eo)" by simp
  have l: "0 + int (length ?ops) \<le> 2 ^ 53" by simp
  have nr: "\<not> d_isRecurring (data0 [] False)" by (simp add: data0_def)
  have n1: "getNextTaskId (tasks emptyState) = 1" by code_simp
  from ids_max_plus_one_distinct[OF b, of "env0 0" "data0 [] False" ?ops "env0 1"] d o l nr n1
  show ?thesis by simp
qed

text \<open>
  C8. \<^verbatim>\<open>deleteTask\<close> of the recurring task 1 of \<open>recurringParent\<close> throws: the method that
  should cancel the schedule does not exist. Task 1 stays in the store and its schedule
  stays active; task 2 has lost its dependency on task 1. For a task that is not
  recurring the call returns, the task is removed and no list of the store holds its id
  any more (\<open>deleteTask_not_recurring\<close>, \<open>deleteTask_not_recurring_clean\<close>).
\<close>

theorem delete_recurring_throws:
  "map isRecurring (tasks recurringParent) = [True, False]
   \<and> map dependencies (tasks recurringParent) = [[], [1]]
   \<and> fst (deleteTask (env0 1) 1 recurringParent) = Inl TypeError
   \<and> map id_task (tasks (snd (deleteTask (env0 1) 1 recurringParent))) = [1, 2]
   \<and> map dependencies (tasks (snd (deleteTask (env0 1) 1 recurringParent))) = [[], []]
   \<and> map isActive (recurringTasks (snd (deleteTask (env0 1) 1 recurringParent))) = [True]"
  by code_simp

text \<open>
  C9. For a task of the store, \<open>canStartTask\<close> is true exactly when every id in its
  dependencies resolves to a task of the store whose status is \<open>COMPLETED\<close>; a task without
  dependencies can start; and when one dependency is not completed and all the others
  are, the task cannot start, and it can start after that dependency has been completed,
  be it by an \<^verbatim>\<open>updateTask\<close> that sets the status \<open>COMPLETED\<close> and leaves the
  dependencies alone or by \<^verbatim>\<open>updateTaskProgress\<close> with 100; both calls return.
\<close>

theorem canStart_iff_dependencies_completed:
  assumes "getTask (tasks s) taskId = Some task"
  shows "(canStartTask (tasks s) taskId \<longleftrightarrow>
            (\<forall>depId \<in> set (dependencies task).
               \<exists>depTask. getTask (tasks s) depId = Some depTask \<and> status depTask = COMPLETED))
       \<and> (dependencies task = [] \<longrightarrow> canStartTask (tasks s) taskId)
       \<and> (\<forall>depId depTask.
             depId \<in> set (dependencies task) \<and> getTask (tasks s) depId = Some depTask
             \<and> status depTask \<noteq> COMPLETED
             \<and> (\<forall>d \<in> set (dependencies task). d \<noteq> depId \<longrightarrow>
                    (\<exists>t. getTask (tasks s) d = Some t \<and> status t = COMPLETED))
             \<longrightarrow> \<not> canStartTask (tasks s) taskId
               \<and> (\<forall>u. u_status u = Some COMPLETED \<and> u_dependencies u = None \<longrightarrow>
                      (\<exists>t'. fst (updateTask e depId u s) = Inr t')
                      \<and> canStartTask (tasks (snd (updateTask e depId u s))) taskId)
               \<and> (\<exists>t'. fst (updateTaskProgress e depId 100 hours s) = Inr t')
               \<and> canStartTask (tasks (snd (updateTaskProgress e depId 100 hours s))) taskId)"
proof (intro conjI allI impI)
  show "canStartTask (tasks s) taskId \<longleftrightarrow>
            (\<forall>depId \<in> set (dependencies task).
               \<exists>depTask. getTask (tasks s) depId = Some depTask \<and> status depTask = COMPLETED)"
    by (rule canStartTask_iff[OF assms])
  show "canStartTask (tasks s) taskId" if "dependencies task = []"
    using that by (simp add: canStartTask_iff[OF assms])
  fix depId depTask
  assume h: "depId \<in> set (dependencies task) \<and> getTask (tasks s) depId = Some depTask
             \<and> status depTask \<noteq> COMPLETED
             \<and> (\<forall>d \<in> set (dependencies task). d \<noteq> depId \<longrightarrow>
                    (\<exists>t. getTask (tasks s) d = Some t \<and> status t = COMPLETED))"
  then have "\<not> (\<exists>t. getTask (tasks s) depId = Some t \<and> status t = COMPLETED)"
    and "depId \<in> set (dependencies task)"
    by auto
  then show "\<not> canStartTask (tasks s) taskId"
    unfolding canStartTask_iff[OF assms] by blast
  from h have gD: "getTask (tasks s) depId = Some depTask"
    and open_dep: "status depTask \<noteq> COMPLETED"
    and others: "\<forall>d \<in> set (dependencies task). d \<noteq> depId \<longrightarrow>
                    (\<exists>t. getTask (tasks s) d = Some t \<and> status t = COMPLETED)"
    by blast+
  note u0 = updateTaskProgress_100[OF gD open_dep, of e hours]
  from completing_update[OF assms gD others u0(2,3), of e]
  show "\<exists>t'. fst (updateTaskProgress e depId 100 hours s) = Inr t'"
    and "canStartTask (tasks (snd (updateTaskProgress e depId 100 hours s))) taskId"
    by (simp_all add: u0(1))
  fix u :: updates
  assume "u_status u = Some COMPLETED \<and> u_dependencies u = None"
  then have u: "u_status u = Some COMPLETED" "u_dependencies u = None" by simp_all
  from completing_update[OF assms gD others u, of e]
  show "\<exists>t'. fst (updateTask e depId u s) = Inr t'"
    and "canStartTask (tasks (snd (updateTask e depId u s))) taskId"
    by simp_all
qed

theorem canStart_iff_dependencies_completed_witness:
  "canStartTask (tasks chainTasks) 1
   \<and> \<not> canStartTask (tasks chainTasks) 2
   \<and> canStartTask
       (tasks (snd (updateTask (env0 5) 1 (noUpdates\<lparr>u_status := Some COMPLETED\<rparr>) chainTasks))) 2
   \<and> canStartTask (tasks (snd (updateTaskProgress (env0 5) 1 100 None chainTasks))) 2"
proof -
  have g1: "getTask (tasks chainTasks) 1 = Some (the (getTask (tasks chainTasks) 1))"
    by code_simp
  have g2: "getTask (tasks chainTasks) 2 = Some (the (getTask (tasks chainTasks) 2))"
    by code_simp
  have d1: "dependencies (the (getTask (tasks chainTasks) 1)) = []"
    by code_simp
  have d2: "1 \<in> set (dependencies (the (getTask (tasks chainTasks) 2)))"
    by code_simp
  have st: "status (the (getTask (tasks chainTasks) 1)) \<noteq> COMPLETED"
    by code_simp
  have rest: "\<forall>d \<in> set (dependencies (the (getTask (tasks chainTasks) 2))). d \<noteq> 1 \<longrightarrow>
                (\<exists>t. getTask (tasks chainTasks) d = Some t \<and> status t = COMPLETED)"
  proof -
    have "dependencies (the (getTask (tasks chainTasks) 2)) = [1]" by code_simp
    then show ?thesis by simp
  qed
  have u: "u_status (noUpdates\<lparr>u_status := Some COMPLETED\<rparr>) = Some COMPLETED
           \<and> u_dependencies (noUpdates\<lparr>u_status := Some COMPLETED\<rparr>) = None"
    by (simp add: noUpdates_def)
  from canStart_iff_dependencies_completed[OF g1, of "env0 5" None] d1
  have "canStartTask (tasks chainTasks) 1" by blast
  moreover from canStart_iff_dependencies_completed[OF g2, of "env0 5" None] d2 g1 st rest u
  have "\<not> canStartTask (tasks chainTasks) 2
        \<and> canStartTask
            (tasks (snd (updateTask (env0 5) 1 (noUpdates\<lparr>u_status := Some COMPLETED\<rparr>) chainTasks))) 2
        \<and> canStartTask (tasks (snd (updateTaskProgress (env0 5) 1 100 None chainTasks))) 2"
    by blast
  ultimately show ?thesis by blast
qed

text \<open>
  C10. For a task id that is absent from the store, \<open>canStartTask\<close> returns false; it
  raises no error, being a total function of the store and the id.
\<close>

theorem canStart_absent_false:
  "getTask ts taskId = None \<Longrightarrow> canStartTask ts taskId = False"
  by (simp add: canStartTask_def)

theorem canStart_absent_false_witness:
  "getTask (tasks chainTasks) 7 = None \<and> canStartTask (tasks chainTasks) 7 = False"
proof -
  have h: "getTask (tasks chainTasks) 7 = None" by code_simp
  from canStart_absent_false[OF h] h show ?thesis by simp
qed

end
